theory Spec2Isabelle
  imports Main "HOL-Library.Word"
begin

section \<open>Strings\<close>

text \<open>
  A JavaScript string is a sequence of 16-bit code units. String literals of the source
  are written with \<open>js\<close>, which maps each (ASCII) character to its code unit.
\<close>

type_synonym cu = "16 word"
type_synonym jsstring = "cu list"

definition js :: "string \<Rightarrow> jsstring" where
  "js s = map of_char s"

text \<open>
  The classes of code units are given by their numeric value \<open>uint c\<close>: the
  LineTerminator code units, and WhiteSpace (TAB, VT, FF, SP, NBSP, ZWNBSP and the
  category Zs).
\<close>

definition isLineTerminator :: "cu \<Rightarrow> bool" where
  "isLineTerminator c = (let v = uint c in v = 0x0A \<or> v = 0x0D \<or> v = 0x2028 \<or> v = 0x2029)"

definition isWhiteSpace :: "cu \<Rightarrow> bool" where
  "isWhiteSpace c =
     (let v = uint c
      in v = 0x09 \<or> v = 0x0B \<or> v = 0x0C \<or> v = 0x20 \<or> v = 0xA0 \<or> v = 0xFEFF \<or> v = 0x1680
         \<or> (0x2000 \<le> v \<and> v \<le> 0x200A) \<or> v = 0x202F \<or> v = 0x205F \<or> v = 0x3000)"

section \<open>Regular expressions\<close>

text \<open>
  The patterns of the source use character atoms, the anchors \<open>^\<close> and \<open>$\<close> (no
  multiline flag), concatenation, alternation, capturing groups and quantifiers
  (greedy or lazy, with a minimum and an optional maximum).
\<close>

datatype re =
    Chr "cu \<Rightarrow> bool"
  | Bol
  | Eol
  | Eps
  | Seq re re
  | Alt re re
  | Grp nat re
  | Rep bool nat "nat option" re

text \<open>
  A matcher state: the end index reached in the input, the input from there on, and the
  captures so far, each the range of indices that its group matched.
\<close>

type_synonym captures = "nat \<Rightarrow> (nat \<times> nat) option"

datatype mstate = St (idx: nat) (rest: jsstring) (caps: captures)

primrec groups :: "re \<Rightarrow> nat list" where
  "groups (Chr P) = []"
| "groups Bol = []"
| "groups Eol = []"
| "groups Eps = []"
| "groups (Seq a b) = groups a @ groups b"
| "groups (Alt a b) = groups a @ groups b"
| "groups (Grp k a) = k # groups a"
| "groups (Rep g mn mx a) = groups a"

definition clear :: "nat list \<Rightarrow> mstate \<Rightarrow> mstate" where
  "clear ks x = St (idx x) (rest x) (\<lambda>k. if k \<in> set ks then None else caps x k)"

definition dec :: "nat option \<Rightarrow> nat option" where
  "dec mx = (case mx of None \<Rightarrow> None | Some k \<Rightarrow> Some (k - 1))"

text \<open>
  The quantifier (RepeatMatcher of the language definition): all ways to iterate the
  body \<open>f\<close>, most preferred first. The captures of the body are reset before each
  iteration; once the minimum is reached, an iteration that consumes nothing fails.
  A matcher never gives input back, so "no shorter rest" below is "the same end index".
\<close>

function rep :: "nat list \<Rightarrow> (mstate \<Rightarrow> mstate list) \<Rightarrow> bool \<Rightarrow> nat \<Rightarrow> nat option
    \<Rightarrow> mstate \<Rightarrow> mstate list" where
  "rep ks f greedy mn mx x =
     (if mx = Some 0 then [x]
      else
        let iter = concat (map (\<lambda>y.
                     if mn = 0 \<and> \<not> length (rest y) < length (rest x) then []
                     else rep ks f greedy (mn - 1) (dec mx) y) (f (clear ks x)))
        in if mn \<noteq> 0 then iter
           else if greedy then iter @ [x]
           else x # iter)"
  by pat_completeness auto
termination
  by (relation "inv_image (less_than <*lex*> less_than)
        (\<lambda>(ks, f, greedy, mn, mx, x). (mn, length (rest x)))") auto

declare rep.simps [simp del]

text \<open>
  The matcher: all end states of matching \<open>r\<close> from a state, in the order in which
  the backtracking matcher of the language tries them.
\<close>

primrec m :: "re \<Rightarrow> mstate \<Rightarrow> mstate list" where
  "m (Chr P) x =
     (case rest x of [] \<Rightarrow> [] | c # cs \<Rightarrow> if P c then [St (Suc (idx x)) cs (caps x)] else [])"
| "m Bol x = (if idx x = 0 then [x] else [])"
| "m Eol x = (if rest x = [] then [x] else [])"
| "m Eps x = [x]"
| "m (Seq a b) x = concat (map (m b) (m a x))"
| "m (Alt a b) x = m a x @ m b x"
| "m (Grp k a) x =
     map (\<lambda>y. St (idx y) (rest y) ((caps y)(k \<mapsto> (idx x, idx y)))) (m a x)"
| "m (Rep greedy mn mx a) x = rep (groups a) (m a) greedy mn mx x"

text \<open>
  A quantified character atom, computed along the input. It is the general quantifier
  at a one-character body (lemma \<open>rep_run\<close>), where every iteration consumes.
\<close>

fun run :: "(cu \<Rightarrow> bool) \<Rightarrow> bool \<Rightarrow> nat \<Rightarrow> nat \<Rightarrow> jsstring \<Rightarrow> captures \<Rightarrow> mstate list" where
  "run P greedy mn i [] c = (if mn = 0 then [St i [] c] else [])"
| "run P greedy mn i (a # t) c =
     (if P a then
        (let iter = run P greedy (mn - 1) (Suc i) t c
         in if mn \<noteq> 0 then iter
            else if greedy then iter @ [St i (a # t) c]
            else St i (a # t) c # iter)
      else if mn = 0 then [St i (a # t) c] else [])"

text \<open>
  A match: the index where it starts, the index where it ends, and the matched strings
  \<open>matches[k]\<close> (\<open>matches[0]\<close> is the whole match; \<open>None\<close> is \<open>undefined\<close>).
\<close>

type_synonym rmatch = "nat \<times> nat \<times> (nat \<Rightarrow> jsstring option)"

definition sub :: "jsstring \<Rightarrow> (nat \<times> nat) option \<Rightarrow> jsstring option" where
  "sub s v = (case v of None \<Rightarrow> None | Some (i, j) \<Rightarrow> Some (take (j - i) (drop i s)))"

text \<open>The first start index from \<open>i\<close> on, with \<open>t\<close> the input from \<open>i\<close>, where \<open>r\<close> matches.\<close>

fun search :: "re \<Rightarrow> jsstring \<Rightarrow> nat \<Rightarrow> jsstring \<Rightarrow> rmatch option" where
  "search r s i t =
     (case m r (St i t (\<lambda>k. None)) of
        y # ys \<Rightarrow> Some (i, idx y, \<lambda>k. sub s (((caps y)(0 \<mapsto> (i, idx y))) k))
      | [] \<Rightarrow> (case t of [] \<Rightarrow> None | c # cs \<Rightarrow> search r s (Suc i) cs))"

declare search.simps [simp del]

text \<open>\<open>RegExp.prototype.exec\<close> for a pattern without the global flag.\<close>

definition exec :: "re \<Rightarrow> jsstring \<Rightarrow> rmatch option" where
  "exec r s = search r s 0 s"

definition test :: "re \<Rightarrow> jsstring \<Rightarrow> bool" where
  "test r s = (exec r s \<noteq> None)"

text \<open>
  \<open>String.prototype.replace\<close> with a pattern without the global flag: the first
  match is replaced by what \<open>f\<close> makes of its captures.
\<close>

definition replace :: "jsstring \<Rightarrow> re \<Rightarrow> ((nat \<Rightarrow> jsstring option) \<Rightarrow> jsstring) \<Rightarrow> jsstring" where
  "replace s r f =
     (case exec r s of
        None \<Rightarrow> s
      | Some (i, j, c) \<Rightarrow> take i s @ f c @ drop j s)"

subsection \<open>The first match, depth first\<close>

text \<open>
  The language's matcher runs depth first with a continuation and stops at the first
  success. Here the continuation is a list of frames: patterns still to match, and
  captures to close. \<open>mfs\<close> gives all end states as \<open>m\<close> does, \<open>first\<close> the first one.
\<close>

datatype frame = Match re | SetCap nat nat

primrec mfs :: "frame list \<Rightarrow> mstate \<Rightarrow> mstate list" where
  "mfs [] x = [x]"
| "mfs (f # k) x =
     (case f of
        Match r \<Rightarrow> concat (map (mfs k) (m r x))
      | SetCap j i \<Rightarrow> mfs k (St (idx x) (rest x) ((caps x)(j \<mapsto> (i, idx x)))))"

definition first :: "frame list \<Rightarrow> mstate \<Rightarrow> mstate option" where
  "first k x = (case mfs k x of [] \<Rightarrow> None | y # ys \<Rightarrow> Some y)"

primrec firstSome :: "('a \<Rightarrow> 'b option) \<Rightarrow> 'a list \<Rightarrow> 'b option" where
  "firstSome f [] = None"
| "firstSome f (y # ys) = (case f y of Some z \<Rightarrow> Some z | None \<Rightarrow> firstSome f ys)"

subsection \<open>Atoms and abbreviations of the pattern syntax\<close>

definition dot :: "cu \<Rightarrow> bool" where
  "dot c = (\<not> isLineTerminator c)"

definition nonspace :: "cu \<Rightarrow> bool" where
  "nonspace c = (\<not> (isWhiteSpace c \<or> isLineTerminator c))"

definition digit :: "cu \<Rightarrow> bool" where
  "digit c = (let v = uint c in 0x30 \<le> v \<and> v \<le> 0x39)"

definition notquote :: "cu \<Rightarrow> bool" where
  "notquote c = (c \<noteq> 0x22)"

text \<open>
  Canonicalize for the \<open>i\<close> flag (no \<open>u\<close> flag): a code unit is compared by its upper
  case. A code unit from 128 on never canonicalizes to an ASCII one, so against the
  ASCII characters of the patterns only the ASCII letters change.
\<close>

definition Canonicalize :: "cu \<Rightarrow> cu" where
  "Canonicalize c = (let v = uint c in if 0x61 \<le> v \<and> v \<le> 0x7A then c - 0x20 else c)"

definition cat :: "re list \<Rightarrow> re" where
  "cat rs = foldr Seq rs Eps"

definition lit :: "string \<Rightarrow> re" where
  "lit s = cat (map (\<lambda>c. Chr (\<lambda>x. x = of_char c)) s)"

definition liti :: "string \<Rightarrow> re" where
  "liti s = cat (map (\<lambda>c. Chr (\<lambda>x. Canonicalize x = Canonicalize (of_char c))) s)"

definition plus :: "re \<Rightarrow> re" where
  "plus r = Rep True 1 None r"

definition plus_lazy :: "re \<Rightarrow> re" where
  "plus_lazy r = Rep False 1 None r"

definition star :: "re \<Rightarrow> re" where
  "star r = Rep True 0 None r"

definition opt :: "re \<Rightarrow> re" where
  "opt r = Rep True 0 (Some 1) r"

definition times :: "nat \<Rightarrow> re \<Rightarrow> re" where
  "times k r = Rep True k (Some k) r"

section \<open>The patterns of the log parser\<close>

text \<open>
  \<^verbatim>\<open>REGEX_CLF = /^(\S+) \S+ \S+ \[(.+?)\] "(\S+) (\S+) \S+" (\S+) (\S+)(?: "([^"]*)" "([^"]*)")?$/\<close>
  Captures: 1 ip, 2 date, 3 method, 4 url, 5 status, 6 bytes, 7 referrer (optional),
  8 useragent (optional).
\<close>

definition REGEX_CLF :: re where
  \<open>REGEX_CLF = cat
     [Bol, Grp 1 (plus (Chr nonspace)), lit '' '', plus (Chr nonspace), lit '' '',
      plus (Chr nonspace), lit '' ['', Grp 2 (plus_lazy (Chr dot)), lit ''] "'',
      Grp 3 (plus (Chr nonspace)), lit '' '', Grp 4 (plus (Chr nonspace)), lit '' '',
      plus (Chr nonspace), lit ''" '', Grp 5 (plus (Chr nonspace)), lit '' '',
      Grp 6 (plus (Chr nonspace)),
      opt (cat [lit '' "'', Grp 7 (star (Chr notquote)), lit ''" "'',
                Grp 8 (star (Chr notquote)), lit ''"'']),
      Eol]\<close>

text \<open>\<^verbatim>\<open>REGEX_DATE = /(\/\d+):(\d+)/\<close>\<close>

definition REGEX_DATE :: re where
  "REGEX_DATE = cat
     [Grp 1 (cat [lit ''/'', plus (Chr digit)]), lit '':'', Grp 2 (plus (Chr digit))]"

text \<open>\<^verbatim>\<open>REGEX_EXTERNAL = /^\/.+?\/.+?\/.+?\/.+/\<close>\<close>

definition REGEX_EXTERNAL :: re where
  "REGEX_EXTERNAL = cat
     [Bol, lit ''/'', plus_lazy (Chr dot), lit ''/'', plus_lazy (Chr dot), lit ''/'',
      plus_lazy (Chr dot), lit ''/'', plus (Chr dot)]"

text \<open>
  \<^verbatim>\<open>REGEX_LOOOPBACK_URL = /^https?:\/\/(?:localhost|127\.0\.0\.1|\[(?:(?:0+:){7}|::)0*1(?:\/128)?\])(?::\d+)?\//i\<close>
\<close>

definition REGEX_LOOOPBACK_URL :: re where
  "REGEX_LOOOPBACK_URL = cat
     [Bol, liti ''http'', opt (liti ''s''), liti ''://'',
      Alt (liti ''localhost'')
       (Alt (liti ''127.0.0.1'')
         (cat [liti ''['',
               Alt (times 7 (cat [plus (liti ''0''), liti '':''])) (liti ''::''),
               star (liti ''0''), liti ''1'', opt (liti ''/128''), liti '']''])),
      opt (cat [liti '':'', plus (Chr digit)]),
      liti ''/'']"

text \<open>\<^verbatim>\<open>REGEX_QUERY = /\?.*$/\<close>\<close>

definition REGEX_QUERY :: re where
  "REGEX_QUERY = cat [lit ''?'', star (Chr dot), Eol]"

text \<open>\<^verbatim>\<open>REGEX_RAWGIT = /^https?:\/\/rawgit(?:hub)?\.com\//i\<close>\<close>

definition REGEX_RAWGIT :: re where
  "REGEX_RAWGIT = cat
     [Bol, liti ''http'', opt (liti ''s''), liti ''://rawgit'', opt (liti ''hub''),
      liti ''.com/'']"

section \<open>Configuration and environment\<close>

text \<open>
  The configuration object is loaded elsewhere. \<open>statsIgnorePaths\<close> is an object
  used as a set: the model holds the keys whose lookup is truthy.
\<close>

record config =
  upstreamRequestLog :: "jsstring option"
  upstreamRequestLogScrollback :: "nat option"
  statsIgnorePaths :: "jsstring set"

section \<open>Numbers\<close>

text \<open>
  The Numbers that \<open>parseInt(s, 10)\<close> gives: a double whose value is an integer, held as
  that integer, or an infinity; NaN is \<open>None\<close>. The model does not tell \<open>-0\<close> from \<open>0\<close>:
  the only reader of the result is \<open>|| 0\<close>, which gives \<open>0\<close> for both.
\<close>

datatype number = Finite int | PosInfinity | NegInfinity

definition negative :: "number \<Rightarrow> bool" where
  "negative v = (case v of Finite z \<Rightarrow> z < 0 | PosInfinity \<Rightarrow> False | NegInfinity \<Rightarrow> True)"

text \<open>The number of binary digits of a positive integer.\<close>

function bits :: "int \<Rightarrow> nat" where
  "bits n = (if n \<le> 0 then 0 else Suc (bits (n div 2)))"
  by pat_completeness auto

termination
  by (relation "measure nat") auto

declare bits.simps [simp del]

text \<open>
  The Number for a mathematical integer: the nearest double, the one with the even
  significand of 53 binary digits when two are as near, and an infinity when that
  rounding reaches \<open>2 ^ 1024\<close>.
\<close>

definition round_double :: "int \<Rightarrow> number" where
  "round_double z =
     (let a = \<bar>z\<bar>;
          sh = bits a - 53;
          q = a div 2 ^ sh;
          r = a mod 2 ^ sh;
          q' = (if 2 ^ sh < 2 * r \<or> (2 * r = 2 ^ sh \<and> odd q) then q + 1 else q);
          v = q' * 2 ^ sh
      in if 2 ^ 1024 \<le> v then (if z < 0 then NegInfinity else PosInfinity)
         else Finite (if z < 0 then - v else v))"

text \<open>
  \<open>parseInt(s, 10)\<close>: leading white space is skipped, then an optional sign, then the
  longest prefix of decimal digits; without a digit the result is NaN. Otherwise it
  is the Number for the signed integer that the digits write. (The language lets an
  implementation read the digits after the twentieth significant one as zeros; the
  model reads every digit.)
\<close>

fun digits_value :: "int \<Rightarrow> jsstring \<Rightarrow> int" where
  "digits_value acc [] = acc"
| "digits_value acc (c # cs) = digits_value (10 * acc + (uint c - 0x30)) cs"

definition parseInt10 :: "jsstring \<Rightarrow> number option" where
  "parseInt10 s =
     (let s1 = dropWhile (\<lambda>c. isWhiteSpace c \<or> isLineTerminator c) s;
          sign = (case s1 of c # cs \<Rightarrow> if c = 0x2D then - 1 else 1 | [] \<Rightarrow> (1::int));
          s2 = (case s1 of c # cs \<Rightarrow> if c = 0x2D \<or> c = 0x2B then cs else s1 | [] \<Rightarrow> []);
          ds = takeWhile digit s2
      in if ds = [] then None else Some (round_double (sign * digits_value 0 ds)))"

text \<open>
  \<open>x || 0\<close>: NaN and zero are falsy and give \<open>0\<close>; any other Number, an infinity too, is
  kept. \<open>number_or_zero\<close> is for the result of \<open>parseInt\<close>, \<open>or_zero\<close> for the time value
  of \<open>Date.parse\<close>, an integer or NaN.
\<close>

definition number_or_zero :: "number option \<Rightarrow> number" where
  "number_or_zero x = (case x of None \<Rightarrow> Finite 0 | Some v \<Rightarrow> v)"

definition or_zero :: "int option \<Rightarrow> int" where
  "or_zero x = (case x of None \<Rightarrow> 0 | Some v \<Rightarrow> v)"

section \<open>parseLine\<close>

text \<open>
  The call \<open>stats.logRequest(path, referrer, size, time)\<close> is the only effect of
  \<open>parseLine\<close>; the model returns its arguments. Reading a property of
  \<open>undefined\<close> throws a TypeError.
\<close>

record request =
  path :: jsstring
  referrer :: jsstring
  size :: number
  time :: int

datatype error = TypeError

text \<open>
  \<open>Date.parse\<close> is implementation-defined for the format of the log, so it is a
  parameter; \<open>None\<close> is NaN. In a replacement string, \<open>$k\<close> is capture \<open>k\<close>, empty
  when the group did not take part. \<open>parseInt\<close> converts its argument to a string.
\<close>

definition dollar :: "nat \<Rightarrow> (nat \<Rightarrow> jsstring option) \<Rightarrow> jsstring" where
  "dollar k c = (case c k of None \<Rightarrow> [] | Some s \<Rightarrow> s)"

definition ToString :: "jsstring option \<Rightarrow> jsstring" where
  "ToString v = (case v of None \<Rightarrow> js ''undefined'' | Some s \<Rightarrow> s)"

definition strip_query :: "jsstring \<Rightarrow> jsstring" where
  "strip_query s = replace s REGEX_QUERY (\<lambda>c. [])"

definition parseLine :: "config \<Rightarrow> (jsstring \<Rightarrow> int option) \<Rightarrow> jsstring
    \<Rightarrow> error + request option" where
  "parseLine cfg Date_parse line =
     (case exec REGEX_CLF line of
        None \<Rightarrow> Inr None
      | Some (i, j, matches) \<Rightarrow>
          if matches 5 = Some (js ''403'') then Inr None
          else (case matches 4 of
             None \<Rightarrow> Inl TypeError
           | Some url \<Rightarrow>
               let path = strip_query url in
               if path \<in> statsIgnorePaths cfg \<or> \<not> test REGEX_EXTERNAL path then Inr None
               else (case matches 7 of
                  None \<Rightarrow> Inl TypeError
                | Some ref \<Rightarrow>
                    let referrer = strip_query ref in
                    if test REGEX_LOOOPBACK_URL referrer then Inr None
                    else if test REGEX_RAWGIT referrer \<and> \<not> test REGEX_EXTERNAL referrer
                    then Inr None
                    else
                      let size = number_or_zero (parseInt10 (ToString (matches 6))) in
                      (case matches 2 of
                         None \<Rightarrow> Inl TypeError
                       | Some date \<Rightarrow>
                           let time = or_zero (Date_parse
                                 (replace date REGEX_DATE
                                    (\<lambda>c. dollar 1 c @ js '' '' @ dollar 2 c)))
                           in Inr (Some \<lparr>path = path, referrer = referrer,
                                           size = size, time = time\<rparr>)))))"

text \<open>A field of the parsed request of a line: a capture of \<open>REGEX_CLF\<close>.\<close>

definition field :: "jsstring \<Rightarrow> nat \<Rightarrow> jsstring option" where
  "field line k = (case exec REGEX_CLF line of None \<Rightarrow> None | Some (i, j, matches) \<Rightarrow> matches k)"

section \<open>Splitting the stream into lines\<close>

text \<open>\<open>s.split("\n")\<close>: the pieces between the separators; never an empty array.\<close>

fun split :: "cu \<Rightarrow> jsstring \<Rightarrow> jsstring list" where
  "split sep [] = [[]]"
| "split sep (c # cs) =
     (if c = sep then [] # split sep cs
      else (case split sep cs of [] \<Rightarrow> [[c]] | l # ls \<Rightarrow> (c # l) # ls))"

text \<open>
  The first statements of the \<open>readable\<close> handler: the lines of \<open>overflow + chunk\<close>
  and the new overflow, which \<open>lines.pop()\<close> takes off the end. A chunk is what
  \<open>tailStream.read()\<close> returns: a string, or \<open>null\<close>, which \<open>+\<close> turns into the
  string \<open>null\<close>.
\<close>

definition chunk_text :: "jsstring option \<Rightarrow> jsstring" where
  "chunk_text chunk = (case chunk of None \<Rightarrow> js ''null'' | Some s \<Rightarrow> s)"

definition split_chunk :: "jsstring \<Rightarrow> jsstring option \<Rightarrow> jsstring list \<times> jsstring" where
  "split_chunk overflow chunk =
     (let lines = split 0x0A (overflow @ chunk_text chunk)
      in (butlast lines, last lines))"

text \<open>The line splitter over a sequence of chunks: the lines emitted and the overflow left.\<close>

fun feed :: "jsstring \<Rightarrow> jsstring option list \<Rightarrow> jsstring list \<times> jsstring" where
  "feed overflow [] = ([], overflow)"
| "feed overflow (chunk # chunks) =
     (let (lines, overflow') = split_chunk overflow chunk;
          (lines', overflow'') = feed overflow' chunks
      in (lines @ lines', overflow''))"

section \<open>The supervisor\<close>

text \<open>
  The state of \<open>tail\<close>: the flag \<open>exports.enabled\<close>, the \<open>spawn\<close> calls made so far
  (scrollback and log path, oldest first), the overflow of the running tail and the
  requests handed to \<open>stats.logRequest\<close>.
\<close>

record sup =
  enabled :: bool
  spawns :: "(nat \<times> jsstring) list"
  overflow :: jsstring
  logged :: "request list"

datatype event = Error | Exit | Readable "jsstring option"

definition tail :: "config \<Rightarrow> jsstring \<Rightarrow> bool \<Rightarrow> sup \<Rightarrow> sup" where
  "tail cfg logPath respawn st =
     (let scrollBack = (if respawn then 0
            else (case upstreamRequestLogScrollback cfg of None \<Rightarrow> 0 | Some k \<Rightarrow> k))
      in st\<lparr>spawns := spawns st @ [(scrollBack, logPath)], overflow := []\<rparr>)"

text \<open>\<open>fs.existsSync\<close> is a parameter. Without a log the parser stays disabled.\<close>

definition init :: "config \<Rightarrow> (jsstring \<Rightarrow> bool) \<Rightarrow> sup" where
  "init cfg existsSync =
     (let off = \<lparr>enabled = False, spawns = [], overflow = [], logged = []\<rparr>
      in case upstreamRequestLog cfg of
           None \<Rightarrow> off
         | Some logPath \<Rightarrow>
             if logPath = [] \<or> \<not> existsSync logPath then off
             else tail cfg logPath False (off\<lparr>enabled := True\<rparr>))"

text \<open>The loop over the lines; an exception of \<open>parseLine\<close> leaves the handler.\<close>

fun parse_lines :: "config \<Rightarrow> (jsstring \<Rightarrow> int option) \<Rightarrow> jsstring list \<Rightarrow> request list
    \<Rightarrow> error + request list" where
  "parse_lines cfg Date_parse [] acc = Inr acc"
| "parse_lines cfg Date_parse (l # ls) acc =
     (case parseLine cfg Date_parse l of
        Inl e \<Rightarrow> Inl e
      | Inr None \<Rightarrow> parse_lines cfg Date_parse ls acc
      | Inr (Some r) \<Rightarrow> parse_lines cfg Date_parse ls (acc @ [r]))"

text \<open>One event of the running tail process or of its output stream.\<close>

definition step :: "config \<Rightarrow> (jsstring \<Rightarrow> int option) \<Rightarrow> jsstring \<Rightarrow> sup \<Rightarrow> event
    \<Rightarrow> error + sup" where
  "step cfg Date_parse logPath st ev =
     (case ev of
        Error \<Rightarrow> Inr (st\<lparr>enabled := False\<rparr>)
      | Exit \<Rightarrow> Inr (tail cfg logPath True st)
      | Readable chunk \<Rightarrow>
          (let (lines, overflow') = split_chunk (overflow st) chunk
           in case parse_lines cfg Date_parse lines (logged st) of
                Inl e \<Rightarrow> Inl e
              | Inr reqs \<Rightarrow> Inr (st\<lparr>overflow := overflow', logged := reqs\<rparr>)))"

fun run_events :: "config \<Rightarrow> (jsstring \<Rightarrow> int option) \<Rightarrow> jsstring \<Rightarrow> sup \<Rightarrow> event list
    \<Rightarrow> error + sup" where
  "run_events cfg Date_parse logPath st [] = Inr st"
| "run_events cfg Date_parse logPath st (ev # evs) =
     (case step cfg Date_parse logPath st ev of
        Inl e \<Rightarrow> Inl e
      | Inr st' \<Rightarrow> run_events cfg Date_parse logPath st' evs)"

section \<open>Notions of the specification\<close>

text \<open>The bodies of the capturing groups numbered \<open>k\<close> in a pattern.\<close>

primrec bodies :: "nat \<Rightarrow> re \<Rightarrow> re list" where
  "bodies k (Chr P) = []"
| "bodies k Bol = []"
| "bodies k Eol = []"
| "bodies k Eps = []"
| "bodies k (Seq a b) = bodies k a @ bodies k b"
| "bodies k (Alt a b) = bodies k a @ bodies k b"
| "bodies k (Grp j a) = (if j = k then [a] else []) @ bodies k a"
| "bodies k (Rep g mn mx a) = bodies k a"

text \<open>A string that pattern \<open>a\<close> can consume between two matcher states.\<close>

definition consumes :: "re \<Rightarrow> jsstring \<Rightarrow> bool" where
  "consumes a u =
     (\<exists>x y. y \<in> set (m a x) \<and> u = take (length (rest x) - length (rest y)) (rest x))"

text \<open>A state that lies in the input \<open>s\<close>: its rest is the input from its index on.\<close>

definition inside :: "jsstring \<Rightarrow> mstate \<Rightarrow> bool" where
  "inside s x = (idx x \<le> length s \<and> rest x = drop (idx x) s)"

text \<open>The non-empty segments of a path between its \<open>/\<close>.\<close>

definition segments :: "jsstring \<Rightarrow> jsstring list" where
  "segments p = filter (\<lambda>l. l \<noteq> []) (split 0x2F p)"

text \<open>
  The sign and the digits that \<open>parseInt\<close> reads in a string that does not begin with
  white space.
\<close>

definition sign_of :: "jsstring \<Rightarrow> int" where
  "sign_of b = (if take 1 b = [0x2D] then - 1 else 1)"

definition digits_of :: "jsstring \<Rightarrow> jsstring" where
  "digits_of b = takeWhile digit (if take 1 b = [0x2D] \<or> take 1 b = [0x2B] then drop 1 b else b)"

text \<open>Whether a run of \<open>parseLine\<close> called \<open>stats.logRequest\<close>.\<close>

definition forwarded :: "error + request option \<Rightarrow> bool" where
  "forwarded res = (case res of Inr (Some r) \<Rightarrow> True | _ \<Rightarrow> False)"

text \<open>
  A pattern without groups that can consume exactly \<open>u\<close>, wherever \<open>u\<close> stands in the
  input.
\<close>

definition reach :: "re \<Rightarrow> jsstring \<Rightarrow> bool" where
  "reach r u = (\<forall>i s c. St (i + length u) s c \<in> set (m r (St i (u @ s) c)))"

text \<open>Strings that are equal up to the case of their ASCII letters.\<close>

definition same_letters :: "jsstring \<Rightarrow> jsstring \<Rightarrow> bool" where
  "same_letters a b = (map Canonicalize a = map Canonicalize b)"

text \<open>
  The loopback origins that \<open>REGEX_LOOOPBACK_URL\<close> knows: the host \<open>localhost\<close>,
  \<open>127.0.0.1\<close>, or a bracketed IPv6 address that is \<open>::\<close> or seven groups of zeros,
  then zeros and a \<open>1\<close>, with or without \<open>/128\<close>; and a port, if any, of decimal
  digits.
\<close>

definition zero_groups :: "nat list \<Rightarrow> jsstring" where
  "zero_groups ns = concat (map (\<lambda>n. replicate n 0x30 @ js '':'') ns)"

definition loopback_hosts :: "jsstring set" where
  "loopback_hosts =
     {h. same_letters h (js ''localhost'')} \<union> {js ''127.0.0.1''} \<union>
     {js ''['' @ z @ replicate k 0x30 @ js ''1'' @ sfx @ js '']'' | z k sfx.
        (z = js ''::'' \<or> (\<exists>ns. length ns = 7 \<and> (\<forall>n \<in> set ns. 0 < n) \<and> z = zero_groups ns)) \<and>
        (sfx = [] \<or> sfx = js ''/128'')}"

definition ports :: "jsstring set" where
  "ports = {[]} \<union> {js '':'' @ ds | ds. ds \<noteq> [] \<and> list_all digit ds}"

section \<open>Concrete inputs\<close>

text \<open>A configuration, a stand-in for \<open>Date.parse\<close> and log lines to run the parser on.\<close>

definition cfg0 :: config where
  "cfg0 = \<lparr>upstreamRequestLog = Some (js ''/var/log/nginx/access.log''),
           upstreamRequestLogScrollback = Some 100,
           statsIgnorePaths = {js ''/favicon.ico''}\<rparr>"

definition date0 :: "jsstring \<Rightarrow> int option" where
  "date0 s = (if s = js ''10/Oct/2020 13:55:36 -0700'' then Some 1602363336000 else None)"

definition line_ok :: jsstring where
  \<open>line_ok = js ''1.2.3.4 - - [10/Oct/2020:13:55:36 -0700] "GET /user/repo/main/file.js?x=1 HTTP/1.1" 200 512 "https://example.com/page?y=2" "UA"''\<close>

definition line_403 :: jsstring where
  \<open>line_403 = js ''1.2.3.4 - - [10/Oct/2020:13:55:36 -0700] "GET /user/repo/main/file.js?x=1 HTTP/1.1" 403 512 "https://example.com/page" "UA"''\<close>

definition line_favicon :: jsstring where
  \<open>line_favicon = js ''1.2.3.4 - - [10/Oct/2020:13:55:36 -0700] "GET /favicon.ico HTTP/1.1" 200 512 "https://example.com/page" "UA"''\<close>

definition line_slashes :: jsstring where
  \<open>line_slashes = js ''1.2.3.4 - - [10/Oct/2020:13:55:36 -0700] "GET /a/////b HTTP/1.1" 200 512 "https://example.com/page" "UA"''\<close>

definition line_plain :: jsstring where
  \<open>line_plain = js ''1.2.3.4 - - [10/Oct/2020:13:55:36 -0700] "GET /user/repo/main/file.js HTTP/1.1" 200 512''\<close>

definition line_rawgit_deep :: jsstring where
  \<open>line_rawgit_deep = js ''1.2.3.4 - - [10/Oct/2020:13:55:36 -0700] "GET /user/repo/main/file.js HTTP/1.1" 200 512 "https://rawgit.com/user/repo/main/index.html" "UA"''\<close>

definition line_localhost :: jsstring where
  \<open>line_localhost = js ''1.2.3.4 - - [10/Oct/2020:13:55:36 -0700] "GET /user/repo/main/file.js HTTP/1.1" 200 512 "http://localhost:8080/x" "UA"''\<close>

definition line_localhost_bare :: jsstring where
  \<open>line_localhost_bare = js ''1.2.3.4 - - [10/Oct/2020:13:55:36 -0700] "GET /user/repo/main/file.js HTTP/1.1" 200 512 "http://localhost:8080" "UA"''\<close>

definition line_ipv6_short :: jsstring where
  \<open>line_ipv6_short = js ''1.2.3.4 - - [10/Oct/2020:13:55:36 -0700] "GET /user/repo/main/file.js HTTP/1.1" 200 512 "http://[0::1]:8080/x" "UA"''\<close>

definition line_query_cr :: jsstring where
  \<open>line_query_cr = js ''1.2.3.4 - - [10/Oct/2020:13:55:36 -0700] "GET /user/repo/main/file.js HTTP/1.1" 200 512 "https://example.com/page?y=2'' @ [0x0D] @ js ''z" "UA"''\<close>

definition line_negative :: jsstring where
  \<open>line_negative = js ''1.2.3.4 - - [10/Oct/2020:13:55:36 -0700] "GET /user/repo/main/file.js HTTP/1.1" 200 -5 "https://example.com/page" "UA"''\<close>

definition line_trailing_slash :: jsstring where
  \<open>line_trailing_slash = js ''1.2.3.4 - - [10/Oct/2020:13:55:36 -0700] "GET /a/b/c/ HTTP/1.1" 200 512 "https://example.com/page" "UA"''\<close>

definition line_no_leading_slash :: jsstring where
  \<open>line_no_leading_slash = js ''1.2.3.4 - - [10/Oct/2020:13:55:36 -0700] "GET a/b/c/d HTTP/1.1" 400 512 "https://example.com/page" "UA"''\<close>

definition line_no_bytes :: jsstring where
  \<open>line_no_bytes = js ''1.2.3.4 - - [10/Oct/2020:13:55:36 -0700] "GET /user/repo/main/file.js HTTP/1.1" 304 - "https://example.com/page" "UA"''\<close>

definition line_large :: jsstring where
  \<open>line_large = js ''1.2.3.4 - - [10/Oct/2020:13:55:36 -0700] "GET /user/repo/main/file.js HTTP/1.1" 200 9007199254740993 "https://example.com/page" "UA"''\<close>

definition chunks_a :: "jsstring option list" where
  "chunks_a = [Some (js ''ab'' @ [0x0A] @ js ''cd''), Some (js ''e'' @ [0x0A] @ js ''f'')]"

definition chunks_b :: "jsstring option list" where
  "chunks_b = [Some (js ''a''), Some (js ''b'' @ [0x0A] @ js ''cde'' @ [0x0A]), Some (js ''f'')]"

definition events0 :: "event list" where
  "events0 = [Readable (Some (js ''1.2.3.4 - - [10/Oct'')), Exit, Readable None, Exit]"

section \<open>Facts about the matcher\<close>

lemma clear_Nil [simp]: "clear [] x = x"
  by (cases x) (simp add: clear_def)

lemma rep_run:
  assumes f: "\<And>i s c. f (St i s c) = (case s of [] \<Rightarrow> [] | a # s' \<Rightarrow> if P a then [St (Suc i) s' c] else [])"
  shows "rep [] f g mn None (St i s c) = run P g mn i s c"
proof (induction s arbitrary: mn i)
  case Nil
  show ?case by (subst rep.simps) (simp add: f Let_def)
next
  case (Cons a s)
  show ?case using Cons.IH [of "mn - 1" "Suc i"]
    by (subst rep.simps) (cases g; cases "mn = 0"; simp add: f Let_def dec_def)
qed

lemma m_Chr_St:
  "m (Chr P) (St i s c) = (case s of [] \<Rightarrow> [] | a # s' \<Rightarrow> if P a then [St (Suc i) s' c] else [])"
  by (simp split: list.split)

lemma rep_Chr_run: "rep [] (m (Chr P)) g mn None (St i s c) = run P g mn i s c"
  using m_Chr_St by (rule rep_run)

lemma cat_Nil [simp]: "cat [] = Eps"
  by (simp add: cat_def)

lemma cat_Cons [simp]: "cat (r # rs) = Seq r (cat rs)"
  by (simp add: cat_def)

lemma set_m_Seq: "set (m (Seq a b) x) = (\<Union>y \<in> set (m a x). set (m b y))"
  by simp

lemma set_run:
  "set (run P g mn i s c) =
     {St (i + k) (drop k s) c | k. mn \<le> k \<and> k \<le> length (takeWhile P s)}"
proof (induction s arbitrary: mn i)
  case Nil
  show ?case by auto
next
  case (Cons a s)
  show ?case
  proof (cases "P a")
    case False
    then show ?thesis by auto
  next
    case True
    have *: "{St (i + k) (drop k (a # s)) c | k. mn \<le> k \<and> k \<le> Suc (length (takeWhile P s))} =
          {St (Suc i + k) (drop k s) c | k. mn - 1 \<le> k \<and> k \<le> length (takeWhile P s)} \<union>
          (if mn = 0 then {St i (a # s) c} else {})"
    proof (intro set_eqI iffI)
      fix z assume "z \<in> {St (i + k) (drop k (a # s)) c | k. mn \<le> k \<and> k \<le> Suc (length (takeWhile P s))}"
      then obtain k where k: "z = St (i + k) (drop k (a # s)) c" "mn \<le> k" "k \<le> Suc (length (takeWhile P s))"
        by blast
      show "z \<in> {St (Suc i + k) (drop k s) c | k. mn - 1 \<le> k \<and> k \<le> length (takeWhile P s)} \<union>
          (if mn = 0 then {St i (a # s) c} else {})"
      proof (cases k)
        case 0
        then show ?thesis using k by simp
      next
        case (Suc j)
        then have "z = St (Suc i + j) (drop j s) c" "mn - 1 \<le> j" "j \<le> length (takeWhile P s)"
          using k by auto
        then show ?thesis by blast
      qed
    next
      fix z assume "z \<in> {St (Suc i + k) (drop k s) c | k. mn - 1 \<le> k \<and> k \<le> length (takeWhile P s)} \<union>
          (if mn = 0 then {St i (a # s) c} else {})"
      then consider (it) k where "z = St (Suc i + k) (drop k s) c" "mn - 1 \<le> k" "k \<le> length (takeWhile P s)"
        | (here) "mn = 0" "z = St i (a # s) c"
        by (auto split: if_splits)
      then show "z \<in> {St (i + k) (drop k (a # s)) c | k. mn \<le> k \<and> k \<le> Suc (length (takeWhile P s))}"
      proof cases
        case it
        then have "z = St (i + Suc k) (drop (Suc k) (a # s)) c" "mn \<le> Suc k" "Suc k \<le> Suc (length (takeWhile P s))"
          by auto
        then show ?thesis by blast
      next
        case here
        then have "z = St (i + 0) (drop 0 (a # s)) c" by simp
        then show ?thesis using here by blast
      qed
    qed
    show ?thesis
      using True Cons.IH [of "mn - 1" "Suc i"] * by (auto simp: Let_def)
  qed
qed

lemma set_rep_Chr:
  "set (rep [] (m (Chr P)) g mn None (St i s c)) =
     {St (i + k) (drop k s) c | k. mn \<le> k \<and> k \<le> length (takeWhile P s)}"
  by (simp only: rep_Chr_run set_run)

lemma set_m_chrs:
  "set (m (cat (map Chr Ps)) (St i s c)) =
     (if length Ps \<le> length s \<and> list_all2 (\<lambda>P a. P a) Ps (take (length Ps) s)
      then {St (i + length Ps) (drop (length Ps) s) c} else {})"
proof (induction Ps arbitrary: s i)
  case Nil
  show ?case by simp
next
  case (Cons P Ps)
  show ?case
  proof (cases s)
    case Nil
    then show ?thesis by simp
  next
    case (Cons a s')
    then show ?thesis using Cons.IH [of "Suc i" s'] by auto
  qed
qed

lemma search_Bol_pos:
  "0 < i \<Longrightarrow> search (Seq Bol r) s i t = None"
proof (induction t arbitrary: i)
  case Nil
  then show ?case by (subst search.simps) simp
next
  case (Cons a t)
  then show ?case by (subst search.simps) simp
qed

lemma test_anchored:
  "test (Seq Bol r) s = (m r (St 0 s (\<lambda>k. None)) \<noteq> [])"
proof (cases "m r (St 0 s (\<lambda>k. None))")
  case Nil
  then show ?thesis
    unfolding test_def exec_def
    by (subst search.simps) (auto simp: search_Bol_pos split: list.splits)
next
  case (Cons y ys)
  then show ?thesis
    unfolding test_def exec_def
    by (subst search.simps) simp
qed

lemma set_m_lit1:
  "set (m (lit [ch]) (St i s c)) =
     (case s of [] \<Rightarrow> {} | a # s' \<Rightarrow> if a = of_char ch then {St (Suc i) s' c} else {})"
  by (auto simp: lit_def split: list.splits)


lemma hd_concat_map:
  "(case concat (map g ys) of [] \<Rightarrow> None | z # zs \<Rightarrow> Some z) =
   firstSome (\<lambda>y. case g y of [] \<Rightarrow> None | z # zs \<Rightarrow> Some z) ys"
proof (induction ys)
  case Nil
  show ?case by simp
next
  case (Cons y ys)
  then show ?case by (cases "g y") simp_all
qed

lemma first_Match: "first (Match r # k) x = firstSome (first k) (m r x)"
proof -
  have "(\<lambda>y. case mfs k y of [] \<Rightarrow> None | z # zs \<Rightarrow> Some z) = first k"
    by (rule ext) (simp add: first_def)
  then show ?thesis
    using hd_concat_map [of "mfs k" "m r x"] by (simp add: first_def)
qed

lemma first_append:
  "(case xs @ ys of [] \<Rightarrow> None | z # zs \<Rightarrow> Some z) =
   (case (case xs of [] \<Rightarrow> None | z # zs \<Rightarrow> Some z) of Some z \<Rightarrow> Some z
    | None \<Rightarrow> (case ys of [] \<Rightarrow> None | z # zs \<Rightarrow> Some z))"
  by (cases xs) auto

lemma first_Nil: "first [] x = Some x"
  by (simp add: first_def)

lemma first_SetCap:
  "first (SetCap j i # k) x = first k (St (idx x) (rest x) ((caps x)(j \<mapsto> (i, idx x))))"
  by (simp add: first_def)

lemma first_Chr:
  "first (Match (Chr P) # k) x =
     (case rest x of [] \<Rightarrow> None
      | a # t \<Rightarrow> if P a then first k (St (Suc (idx x)) t (caps x)) else None)"
  by (simp add: first_Match split: list.split option.split)

lemma first_Bol: "first (Match Bol # k) x = (if idx x = 0 then first k x else None)"
  by (simp add: first_Match split: option.split)

lemma first_Eol: "first (Match Eol # k) x = (if rest x = [] then first k x else None)"
  by (simp add: first_Match split: option.split)

lemma first_Eps: "first (Match Eps # k) x = first k x"
  by (simp add: first_Match split: option.split)

lemma concat_map_concat:
  "concat (map f (concat xss)) = concat (map (\<lambda>xs. concat (map f xs)) xss)"
  by (induction xss) auto

lemma mfs_Seq: "mfs (Match (Seq a b) # k) x = mfs (Match a # Match b # k) x"
proof -
  have "mfs (Match b # k) = (\<lambda>y. concat (map (mfs k) (m b y)))"
    by (rule ext) simp
  then show ?thesis
    by (simp add: concat_map_concat comp_def)
qed

lemma first_Seq: "first (Match (Seq a b) # k) x = first (Match a # Match b # k) x"
  by (simp only: first_def mfs_Seq)

lemma first_Alt:
  "first (Match (Alt a b) # k) x =
     (case first (Match a # k) x of Some z \<Rightarrow> Some z | None \<Rightarrow> first (Match b # k) x)"
  by (simp add: first_def first_append split: list.split)

lemma mfs_Grp: "mfs (Match (Grp j a) # k) x = mfs (Match a # SetCap j (idx x) # k) x"
proof -
  have "mfs (SetCap j (idx x) # k) =
      (\<lambda>y. mfs k (St (idx y) (rest y) ((caps y)(j \<mapsto> (idx x, idx y)))))"
    by (rule ext) simp
  then show ?thesis
    by (simp add: comp_def)
qed

lemma first_Grp: "first (Match (Grp j a) # k) x = first (Match a # SetCap j (idx x) # k) x"
  by (simp only: first_def mfs_Grp)

lemma mfs_run:
  "concat (map (mfs k) (run P g mn i s c)) =
     (case s of
        [] \<Rightarrow> if mn = 0 then mfs k (St i s c) else []
      | a # t \<Rightarrow>
          if P a then
            (let iter = concat (map (mfs k) (run P g (mn - 1) (Suc i) t c))
             in if mn \<noteq> 0 then iter
                else if g then iter @ mfs k (St i s c)
                else mfs k (St i s c) @ iter)
          else if mn = 0 then mfs k (St i s c) else [])"
  by (cases s) (auto simp: Let_def)

lemma first_Rep_Chr:
  "first (Match (Rep g mn None (Chr P)) # k) (St i s c) =
     (case s of
        [] \<Rightarrow> if mn = 0 then first k (St i s c) else None
      | c' # t \<Rightarrow>
          if P c' then
            if mn \<noteq> 0
            then first (Match (Rep g (mn - 1) None (Chr P)) # k) (St (Suc i) t c)
            else if g
            then (case first (Match (Rep g (mn - 1) None (Chr P)) # k) (St (Suc i) t c) of
                    Some z \<Rightarrow> Some z | None \<Rightarrow> first k (St i s c))
            else (case first k (St i s c) of
                    Some z \<Rightarrow> Some z
                  | None \<Rightarrow> first (Match (Rep g (mn - 1) None (Chr P)) # k) (St (Suc i) t c))
          else if mn = 0 then first k (St i s c) else None)"
proof -
  have chr: "mfs (Match (Rep g mn None (Chr P)) # k) (St i s c) = concat (map (mfs k) (run P g mn i s c))"
    for mn i s c
    by (simp add: rep_Chr_run)
  show ?thesis
    unfolding first_def chr
    by (subst mfs_run) (auto simp: Let_def first_append split: list.splits)
qed

lemma first_Rep:
  "first (Match (Rep g mn mx a) # k) x =
     (case a of
        Chr P \<Rightarrow>
          (case mx of
             None \<Rightarrow>
               (case rest x of
                  [] \<Rightarrow> if mn = 0 then first k x else None
                | c # t \<Rightarrow>
                    if P c then
                      if mn \<noteq> 0
                      then first (Match (Rep g (mn - 1) None (Chr P)) # k) (St (Suc (idx x)) t (caps x))
                      else if g
                      then (case first (Match (Rep g (mn - 1) None (Chr P)) # k)
                                   (St (Suc (idx x)) t (caps x)) of
                              Some z \<Rightarrow> Some z | None \<Rightarrow> first k x)
                      else (case first k x of
                              Some z \<Rightarrow> Some z
                            | None \<Rightarrow> first (Match (Rep g (mn - 1) None (Chr P)) # k)
                                        (St (Suc (idx x)) t (caps x)))
                    else if mn = 0 then first k x else None)
           | Some l \<Rightarrow> firstSome (first k) (rep (groups a) (m a) g mn mx x))
      | _ \<Rightarrow> firstSome (first k) (rep (groups a) (m a) g mn mx x))"
proof -
  have gen: "first (Match (Rep g mn mx a) # k) x = firstSome (first k) (rep (groups a) (m a) g mn mx x)"
    by (simp add: first_Match)
  show ?thesis
  proof (cases a)
    case (Chr P)
    show ?thesis
    proof (cases mx)
      case (Some l)
      then show ?thesis using Chr gen by simp
    next
      case None
      obtain i s c where x: "x = St i s c" by (cases x)
      show ?thesis
        unfolding Chr None x
        by (subst first_Rep_Chr) (simp cong: list.case_cong option.case_cong if_cong)
    qed
  qed (use gen in simp_all)
qed

lemma search_first:
  "search r s i t =
     (case first [Match r] (St i t (\<lambda>k. None)) of
        Some y \<Rightarrow> Some (i, idx y, \<lambda>k. sub s (((caps y)(0 \<mapsto> (i, idx y))) k))
      | None \<Rightarrow> (case t of [] \<Rightarrow> None | c # cs \<Rightarrow> search r s (Suc i) cs))"
proof -
  have "mfs [Match r] x = m r x" for x
    by (simp add: map_concat flip: map_map) (induction "m r x", auto)
  then show ?thesis
    by (subst search.simps) (simp add: first_def split: list.splits)
qed

lemma m_Rep_code:
  "m (Rep g mn mx a) x =
     (case a of
        Chr P \<Rightarrow> (case mx of None \<Rightarrow> run P g mn (idx x) (rest x) (caps x)
                  | Some k \<Rightarrow> rep (groups a) (m a) g mn mx x)
      | _ \<Rightarrow> rep (groups a) (m a) g mn mx x)"
proof -
  have "rep [] (m (Chr P)) g mn None x = run P g mn (idx x) (rest x) (caps x)" for P
    using rep_Chr_run [of P g mn "idx x" "rest x" "caps x"] by simp
  then show ?thesis by (simp split: re.split option.split)
qed

lemmas [code] = m.simps(1-7) m_Rep_code search_first
  first_Nil first_SetCap first_Chr first_Bol first_Eol first_Eps first_Seq first_Alt first_Grp
  first_Rep


lemma js_code [code]: "js s = map (\<lambda>c. word_of_int (of_char c)) s"
  by (simp add: js_def of_int_of_char)

lemma nonspace_dot: "nonspace c \<Longrightarrow> dot c"
  by (simp add: nonspace_def dot_def)

lemma take_takeWhile:
  assumes "k \<le> length (takeWhile P t)"
  shows "list_all P (take k t)"
proof -
  have "take k (takeWhile P t @ dropWhile P t) = take k (takeWhile P t)"
    using assms by (simp only: take_append) simp
  then have "take k t = take k (takeWhile P t)" by simp
  then show ?thesis
    by (metis in_set_takeD list_all_iff set_takeWhileD)
qed

lemma slash_seg:
  assumes "z \<in> set (m (lit ''/'') x)"
    and "y \<in> set (m (Rep g mn None (Chr P)) z)" and "1 \<le> mn"
  shows "\<exists>a. rest x = [0x2F] @ a @ rest y \<and> a \<noteq> [] \<and> list_all P a"
proof -
  obtain i s c where x: "x = St i s c" by (cases x)
  from assms(1) obtain t where t: "s = 0x2F # t" "z = St (Suc i) t c"
    unfolding x by (auto simp: set_m_lit1 split: list.splits if_splits)
  from assms(2,3) obtain k where k: "y = St (Suc i + k) (drop k t) c" "1 \<le> k" "k \<le> length (takeWhile P t)"
    unfolding t by (auto simp: set_rep_Chr)
  have le: "length (takeWhile P t) \<le> length t" by (rule length_takeWhile_le)
  have "list_all P (take k t)" using k(3) by (rule take_takeWhile)
  moreover have "s = [0x2F] @ take k t @ drop k t" "take k t \<noteq> []"
    using t k le by auto
  ultimately have "rest x = [0x2F] @ take k t @ rest y \<and> take k t \<noteq> [] \<and> list_all P (take k t)"
    using k x by simp
  then show ?thesis by blast
qed

lemma external_sound:
  assumes "test REGEX_EXTERNAL p"
  shows "\<exists>a b c d r. p = [0x2F] @ a @ [0x2F] @ b @ [0x2F] @ c @ [0x2F] @ d @ r
           \<and> a \<noteq> [] \<and> b \<noteq> [] \<and> c \<noteq> [] \<and> d \<noteq> []"
proof -
  let ?x = "St 0 p (\<lambda>k. None)"
  from assms have "m (cat [lit ''/'', plus_lazy (Chr dot), lit ''/'', plus_lazy (Chr dot), lit ''/'',
      plus_lazy (Chr dot), lit ''/'', plus (Chr dot)]) ?x \<noteq> []"
    unfolding REGEX_EXTERNAL_def cat_Cons [of Bol] test_anchored .
  then obtain y where "y \<in> set (m (cat [lit ''/'', plus_lazy (Chr dot), lit ''/'', plus_lazy (Chr dot), lit ''/'',
      plus_lazy (Chr dot), lit ''/'', plus (Chr dot)]) ?x)"
    by (meson last_in_set)
  then obtain z1 z2 z3 z4 z5 z6 z7 where
    c: "z1 \<in> set (m (lit ''/'') ?x)" "z2 \<in> set (m (plus_lazy (Chr dot)) z1)"
       "z3 \<in> set (m (lit ''/'') z2)" "z4 \<in> set (m (plus_lazy (Chr dot)) z3)"
       "z5 \<in> set (m (lit ''/'') z4)" "z6 \<in> set (m (plus_lazy (Chr dot)) z5)"
       "z7 \<in> set (m (lit ''/'') z6)" "y \<in> set (m (plus (Chr dot)) z7)"
    unfolding cat_Cons cat_Nil set_m_Seq by (auto simp del: m.simps simp add: m.simps(4))
  obtain a where a: "p = [0x2F] @ a @ rest z2" "a \<noteq> []"
    using slash_seg [OF c(1) c(2) [unfolded plus_lazy_def]] by auto
  obtain b where b: "rest z2 = [0x2F] @ b @ rest z4" "b \<noteq> []"
    using slash_seg [OF c(3) c(4) [unfolded plus_lazy_def]] by auto
  obtain c' where c': "rest z4 = [0x2F] @ c' @ rest z6" "c' \<noteq> []"
    using slash_seg [OF c(5) c(6) [unfolded plus_lazy_def]] by auto
  obtain d where d: "rest z6 = [0x2F] @ d @ rest y" "d \<noteq> []"
    using slash_seg [OF c(7) c(8) [unfolded plus_def]] by auto
  have "p = [0x2F] @ a @ [0x2F] @ b @ [0x2F] @ c' @ [0x2F] @ d @ rest y"
    using a b c' d by simp
  then show ?thesis using a b c' d by blast
qed

lemma slash_seg_intro:
  assumes "list_all P a" and "a \<noteq> []"
  shows "St (Suc (i + length a)) s' c
    \<in> set (m (Seq (lit ''/'') (Rep g (Suc 0) None (Chr P))) (St i ([0x2F] @ a @ s') c))"
proof -
  have "takeWhile P (a @ s') = a @ takeWhile P s'"
    using assms(1) by (simp add: list_all_iff)
  then have "Suc 0 \<le> length a \<and> length a \<le> length (takeWhile P (a @ s')) \<and> s' = drop (length a) (a @ s')"
    using assms(2) by (cases a) auto
  then show ?thesis
    by (auto simp: set_m_lit1 set_rep_Chr simp del: m.simps(5) simp add: set_m_Seq
        intro!: exI [of _ "length a"])
qed

lemma external_complete:
  assumes "p = [0x2F] @ a @ [0x2F] @ b @ [0x2F] @ c @ [0x2F] @ d @ r"
    and "a \<noteq> []" "b \<noteq> []" "c \<noteq> []" "d \<noteq> []"
    and "list_all dot a" "list_all dot b" "list_all dot c" "list_all dot d"
  shows "test REGEX_EXTERNAL p"
proof -
  let ?e = "\<lambda>k::nat. None :: (nat \<times> nat) option"
  let ?S = "\<lambda>g. Seq (lit ''/'') (Rep g (Suc 0) None (Chr dot))"
  let ?i1 = "Suc (0 + length a)"
  let ?i2 = "Suc (?i1 + length b)"
  let ?i3 = "Suc (?i2 + length c)"
  let ?i4 = "Suc (?i3 + length d)"
  have 1: "St ?i1 ([0x2F] @ b @ [0x2F] @ c @ [0x2F] @ d @ r) ?e \<in> set (m (?S False) (St 0 p ?e))"
    unfolding assms(1) using assms by (intro slash_seg_intro)
  have 2: "St ?i2 ([0x2F] @ c @ [0x2F] @ d @ r) ?e
      \<in> set (m (?S False) (St ?i1 ([0x2F] @ b @ [0x2F] @ c @ [0x2F] @ d @ r) ?e))"
    using assms by (intro slash_seg_intro)
  have 3: "St ?i3 ([0x2F] @ d @ r) ?e \<in> set (m (?S False) (St ?i2 ([0x2F] @ c @ [0x2F] @ d @ r) ?e))"
    using assms by (intro slash_seg_intro)
  have 4: "St ?i4 r ?e \<in> set (m (?S True) (St ?i3 ([0x2F] @ d @ r) ?e))"
    using assms by (intro slash_seg_intro)
  have "St ?i4 r ?e \<in> set (m (Seq (?S False) (Seq (?S False) (Seq (?S False) (?S True)))) (St 0 p ?e))"
    using 1 2 3 4 unfolding set_m_Seq by blast
  then have "St ?i4 r ?e \<in> set (m (cat [lit ''/'', plus_lazy (Chr dot), lit ''/'', plus_lazy (Chr dot), lit ''/'',
      plus_lazy (Chr dot), lit ''/'', plus (Chr dot)]) (St 0 p ?e))"
    by (simp add: plus_def plus_lazy_def del: m.simps(8))
  then have "m (cat [lit ''/'', plus_lazy (Chr dot), lit ''/'', plus_lazy (Chr dot), lit ''/'',
      plus_lazy (Chr dot), lit ''/'', plus (Chr dot)]) (St 0 p ?e) \<noteq> []"
    by (metis empty_iff empty_set)
  then show ?thesis
    unfolding REGEX_EXTERNAL_def cat_Cons [of Bol] test_anchored .
qed

lemma inside_clear: "inside s (clear ks x) = inside s x"
  by (simp add: inside_def clear_def)

lemma chr_inside:
  assumes "inside s (St i (a # t') c)"
  shows "inside s (St (Suc i) t' c)"
proof -
  from assms have d: "i \<le> length s" "drop i s = a # t'"
    by (simp_all add: inside_def)
  have "i \<noteq> length s" using d(2) by auto
  then have "Suc i \<le> length s" using d(1) by simp
  moreover have "drop (Suc i) s = tl (drop i s)"
    by (simp add: drop_Suc tl_drop)
  ultimately show ?thesis using d(2) by (simp add: inside_def)
qed

lemma rep_inside:
  "y \<in> set (rep ks f g mn mx x) \<Longrightarrow> inside s x \<Longrightarrow>
   (\<And>x y. inside s x \<Longrightarrow> y \<in> set (f x) \<Longrightarrow> inside s y) \<Longrightarrow> inside s y"
proof (induction ks f g mn mx x rule: rep.induct)
  case (1 ks f g mn mx x)
  show ?case
  proof (cases "mx = Some 0")
    case True
    then show ?thesis using "1.prems"(1,2) by (subst (asm) rep.simps) simp
  next
    case False
    from "1.prems"(1) False
    consider (here) "y = x"
      | (iter) z where "z \<in> set (f (clear ks x))"
          "\<not> (mn = 0 \<and> \<not> length (rest z) < length (rest x))"
          "y \<in> set (rep ks f g (mn - 1) (dec mx) z)"
      by (subst (asm) rep.simps) (auto simp: Let_def split: if_splits)
    then show ?thesis
    proof cases
      case here
      then show ?thesis using "1.prems" by simp
    next
      case iter
      have ic: "inside s (clear ks x)" using "1.prems"(2) by (simp add: inside_clear)
      have iz: "inside s z" using ic iter(1) by (rule "1.prems"(3))
      show ?thesis
        using False iter(1) iter(2) iter(3) iz "1.prems"(3) by (rule "1.IH")
    qed
  qed
qed

lemma m_inside: "inside s x \<Longrightarrow> y \<in> set (m r x) \<Longrightarrow> inside s y"
proof (induction r arbitrary: x y)
  case (Chr P)
  obtain i t c where x: "x = St i t c" by (cases x)
  from Chr.prems(2) obtain a t' where t: "t = a # t'" "y = St (Suc i) t' c"
    unfolding x by (auto split: list.splits if_splits)
  show ?case using Chr.prems(1) unfolding x t by (rule chr_inside)
next
  case Bol
  then have "y = x" by (simp split: if_splits)
  then show ?case using Bol.prems(1) by simp
next
  case Eol
  then have "y = x" by (simp split: if_splits)
  then show ?case using Eol.prems(1) by simp
next
  case Eps
  then have "y = x" by simp
  then show ?case using Eps.prems(1) by simp
next
  case (Seq a b)
  from Seq.prems(2) obtain z where z: "z \<in> set (m a x)" "y \<in> set (m b z)" by auto
  have "inside s z" using Seq.prems(1) z(1) by (rule Seq.IH(1))
  then show ?case using z(2) by (rule Seq.IH(2))
next
  case (Alt a b)
  from Alt.prems(2) have "y \<in> set (m a x) \<or> y \<in> set (m b x)" by simp
  then show ?case
  proof
    assume "y \<in> set (m a x)"
    with Alt.prems(1) show ?thesis by (rule Alt.IH(1))
  next
    assume "y \<in> set (m b x)"
    with Alt.prems(1) show ?thesis by (rule Alt.IH(2))
  qed
next
  case (Grp j a)
  from Grp.prems(2) obtain z where z: "z \<in> set (m a x)"
    "y = St (idx z) (rest z) ((caps z)(j \<mapsto> (idx x, idx z)))"
    by auto
  have "inside s z" using Grp.prems(1) z(1) by (rule Grp.IH)
  then show ?case using z(2) by (simp add: inside_def)
next
  case (Rep g mn mx a)
  from Rep.prems(2) have "y \<in> set (rep (groups a) (m a) g mn mx x)" by simp
  then show ?case using Rep.prems(1)
  proof (rule rep_inside)
    show "inside s y'" if "inside s x'" "y' \<in> set (m a x')" for x' y'
      using that by (rule Rep.IH)
  qed
qed

lemma rep_caps:
  "y \<in> set (rep ks f g mn mx x) \<Longrightarrow> caps y k = Some v \<Longrightarrow> inside s x \<Longrightarrow>
   (\<And>x y. inside s x \<Longrightarrow> y \<in> set (f x) \<Longrightarrow> inside s y) \<Longrightarrow>
   (\<And>x y. inside s x \<Longrightarrow> y \<in> set (f x) \<Longrightarrow> caps y k = Some v \<Longrightarrow> caps x k = Some v \<or> Q) \<Longrightarrow>
   caps x k = Some v \<or> Q"
proof (induction ks f g mn mx x rule: rep.induct)
  case (1 ks f g mn mx x)
  show ?case
  proof (cases "mx = Some 0")
    case True
    then show ?thesis using "1.prems"(1,2) by (subst (asm) rep.simps) simp
  next
    case False
    from "1.prems"(1) False
    consider (here) "y = x"
      | (iter) z where "z \<in> set (f (clear ks x))"
          "\<not> (mn = 0 \<and> \<not> length (rest z) < length (rest x))"
          "y \<in> set (rep ks f g (mn - 1) (dec mx) z)"
      by (subst (asm) rep.simps) (auto simp: Let_def split: if_splits)
    then show ?thesis
    proof cases
      case here
      then show ?thesis using "1.prems" by simp
    next
      case iter
      have ic: "inside s (clear ks x)" using "1.prems"(3) by (simp add: inside_clear)
      have iz: "inside s z" using ic iter(1) by (rule "1.prems"(4))
      have zq: "caps z k = Some v \<or> Q"
        using False iter(1) iter(2) iter(3) "1.prems"(2) iz "1.prems"(4) "1.prems"(5)
        by (rule "1.IH")
      have cl: "caps (clear ks x) k = Some v \<Longrightarrow> caps x k = Some v"
        by (auto simp: clear_def split: if_splits)
      from zq show ?thesis
      proof
        assume "caps z k = Some v"
        with ic iter(1) have "caps (clear ks x) k = Some v \<or> Q" by (rule "1.prems"(5))
        then show ?thesis using cl by blast
      next
        assume Q
        then show ?thesis ..
      qed
    qed
  qed
qed

lemma m_caps:
  "y \<in> set (m r x) \<Longrightarrow> caps y k = Some v \<Longrightarrow> inside s x \<Longrightarrow>
   caps x k = Some v \<or> (\<exists>a \<in> set (bodies k r). \<exists>u. sub s (Some v) = Some u \<and> consumes a u)"
proof (induction r arbitrary: x y)
  case (Chr P)
  then show ?case by (auto split: list.splits if_splits)
next
  case Bol
  then show ?case by (auto split: if_splits)
next
  case Eol
  then show ?case by (auto split: if_splits)
next
  case Eps
  then show ?case by auto
next
  case (Seq a b)
  from Seq.prems obtain z where z: "z \<in> set (m a x)" "y \<in> set (m b z)" by auto
  have iz: "inside s z" using m_inside [OF Seq.prems(3) z(1)] .
  from Seq.IH(2) [OF z(2) Seq.prems(2) iz] show ?case
  proof
    assume "caps z k = Some v"
    from Seq.IH(1) [OF z(1) this Seq.prems(3)] show ?thesis by auto
  next
    assume "\<exists>a \<in> set (bodies k b). \<exists>u. sub s (Some v) = Some u \<and> consumes a u"
    then show ?thesis by auto
  qed
next
  case (Alt a b)
  from Alt.prems(1) have "y \<in> set (m a x) \<or> y \<in> set (m b x)" by auto
  then show ?case
  proof
    assume "y \<in> set (m a x)"
    from Alt.IH(1) [OF this Alt.prems(2,3)] show ?thesis by auto
  next
    assume "y \<in> set (m b x)"
    from Alt.IH(2) [OF this Alt.prems(2,3)] show ?thesis by auto
  qed
next
  case (Grp j a)
  from Grp.prems(1) obtain z where z: "z \<in> set (m a x)"
    "y = St (idx z) (rest z) ((caps z)(j \<mapsto> (idx x, idx z)))"
    by auto
  have iz: "inside s z" using m_inside [OF Grp.prems(3) z(1)] .
  show ?case
  proof (cases "j = k")
    case True
    then have v: "v = (idx x, idx z)"
      using z(2) Grp.prems(2) by simp
    have "length (rest x) - length (rest z) = idx z - idx x"
      using iz Grp.prems(3) by (auto simp: inside_def)
    then have "take (idx z - idx x) (drop (idx x) s) = take (length (rest x) - length (rest z)) (rest x)"
      using Grp.prems(3) by (simp add: inside_def)
    then have "consumes a (take (idx z - idx x) (drop (idx x) s))"
      using z(1) unfolding consumes_def by blast
    then show ?thesis using True v by (simp add: sub_def)
  next
    case False
    then have "caps z k = Some v" using z(2) Grp.prems(2) by simp
    from Grp.IH [OF z(1) this Grp.prems(3)] show ?thesis using False by auto
  qed
next
  case (Rep g mn mx a)
  from Rep.prems(1) have "y \<in> set (rep (groups a) (m a) g mn mx x)" by simp
  then have "caps x k = Some v \<or> (\<exists>b \<in> set (bodies k a). \<exists>u. sub s (Some v) = Some u \<and> consumes b u)"
    using Rep.prems(2,3)
  proof (rule rep_caps)
    show "inside s y'" if "inside s x'" "y' \<in> set (m a x')" for x' y'
      using that by (rule m_inside)
    show "caps x' k = Some v \<or> (\<exists>b \<in> set (bodies k a). \<exists>u. sub s (Some v) = Some u \<and> consumes b u)"
      if "inside s x'" "y' \<in> set (m a x')" "caps y' k = Some v" for x' y'
      using that(2,3,1) by (rule Rep.IH)
  qed
  then show ?case by simp
qed

lemma search_Some:
  "search r s i t = Some (i', j, c) \<Longrightarrow>
   \<exists>y. y \<in> set (m r (St i' (drop (i' - i) t) (\<lambda>k. None))) \<and> i \<le> i' \<and> i' - i \<le> length t \<and>
       j = idx y \<and> c = (\<lambda>k. sub s (((caps y)(0 \<mapsto> (i', idx y))) k))"
proof (induction t arbitrary: i)
  case Nil
  show ?case
  proof (cases "m r (St i [] (\<lambda>k. None))")
    case Nil
    then show ?thesis using Nil.prems by (subst (asm) search.simps) simp
  next
    case (Cons y ys)
    then have "i' = i \<and> j = idx y \<and> c = (\<lambda>k. sub s (((caps y)(0 \<mapsto> (i', idx y))) k))"
      using Nil.prems by (subst (asm) search.simps) auto
    moreover have "y \<in> set (m r (St i [] (\<lambda>k. None)))" using Cons by simp
    ultimately show ?thesis by auto
  qed
next
  case (Cons a t)
  show ?case
  proof (cases "m r (St i (a # t) (\<lambda>k. None))")
    case Nil
    then have "search r s (Suc i) t = Some (i', j, c)"
      using Cons.prems by (subst (asm) search.simps) simp
    from Cons.IH [OF this] obtain y where y: "y \<in> set (m r (St i' (drop (i' - Suc i) t) (\<lambda>k. None)))"
      "Suc i \<le> i'" "i' - Suc i \<le> length t" "j = idx y"
      "c = (\<lambda>k. sub s (((caps y)(0 \<mapsto> (i', idx y))) k))"
      by blast
    have "drop (i' - i) (a # t) = drop (i' - Suc i) t"
      using y(2) by (simp add: drop_Cons' Suc_diff_le)
    then show ?thesis using y by auto
  next
    case (Cons y ys)
    then have "i' = i \<and> j = idx y \<and> c = (\<lambda>k. sub s (((caps y)(0 \<mapsto> (i', idx y))) k))"
      using Cons.prems by (subst (asm) search.simps) auto
    moreover have "y \<in> set (m r (St i (a # t) (\<lambda>k. None)))" using Cons by simp
    ultimately show ?thesis by auto
  qed
qed

lemma exec_Some:
  assumes "exec r s = Some (i, j, c)"
  shows "\<exists>x y. inside s x \<and> caps x = (\<lambda>k. None) \<and> y \<in> set (m r x) \<and>
      (\<forall>k. k \<noteq> 0 \<longrightarrow> c k = sub s (caps y k))"
proof -
  from search_Some [OF assms [unfolded exec_def]] obtain y where
    y: "y \<in> set (m r (St i (drop (i - 0) s) (\<lambda>k. None)))" "i - 0 \<le> length s"
       "c = (\<lambda>k. sub s (((caps y)(0 \<mapsto> (i, idx y))) k))"
    by blast
  have "inside s (St i (drop i s) (\<lambda>k. None))"
    using y(2) by (simp add: inside_def)
  moreover have "\<forall>k. k \<noteq> 0 \<longrightarrow> c k = sub s (caps y k)"
    using y(3) by simp
  ultimately have "inside s (St i (drop i s) (\<lambda>k. None)) \<and> caps (St i (drop i s) (\<lambda>k. None)) = (\<lambda>k. None)
      \<and> y \<in> set (m r (St i (drop i s) (\<lambda>k. None))) \<and> (\<forall>k. k \<noteq> 0 \<longrightarrow> c k = sub s (caps y k))"
    using y(1) by simp
  then show ?thesis by blast
qed

lemma field_consumes:
  assumes "field line k = Some u" and "k \<noteq> 0"
  shows "\<exists>a \<in> set (bodies k REGEX_CLF). consumes a u"
proof -
  from assms obtain i j c where e: "exec REGEX_CLF line = Some (i, j, c)" and c: "c k = Some u"
    by (auto simp: field_def split: option.splits)
  from exec_Some [OF e] obtain x y where
    xy: "inside line x" "caps x = (\<lambda>k. None)" "y \<in> set (m REGEX_CLF x)" "c k = sub line (caps y k)"
    using assms(2) by blast
  from c xy(4) obtain v where v: "caps y k = Some v" "sub line (Some v) = Some u"
    by (cases "caps y k") (auto simp: sub_def)
  from m_caps [OF xy(3) v(1) xy(1)] xy(2) v(2) show ?thesis by auto
qed

lemma consumes_plus_Chr:
  assumes "consumes (plus (Chr P)) u"
  shows "list_all P u \<and> u \<noteq> []"
proof -
  from assms obtain x y where y: "y \<in> set (m (plus (Chr P)) x)"
     "u = take (length (rest x) - length (rest y)) (rest x)"
    unfolding consumes_def by auto
  obtain i s c where x: "x = St i s c" by (cases x)
  from y(1) obtain k where k: "y = St (i + k) (drop k s) c" "1 \<le> k" "k \<le> length (takeWhile P s)"
    unfolding x by (auto simp: plus_def set_rep_Chr)
  have le: "length (takeWhile P s) \<le> length s" by (rule length_takeWhile_le)
  have u: "u = take k s" using y(2) k le x by simp
  have "list_all P (take k s)" using k(3) by (rule take_takeWhile)
  moreover have "u \<noteq> []" using u k le by auto
  ultimately show ?thesis using u by simp
qed

lemma bodies_CLF_4: "bodies 4 REGEX_CLF = [plus (Chr nonspace)]"
  by (simp add: REGEX_CLF_def lit_def plus_def plus_lazy_def opt_def star_def)

lemma field_url_nonspace:
  "field line 4 = Some url \<Longrightarrow> list_all nonspace url \<and> url \<noteq> []"
  using field_consumes [of line 4 url] consumes_plus_Chr [of nonspace url]
  by (simp add: bodies_CLF_4)

lemma takeWhile_all_length: "(length (takeWhile P t) = length t) = list_all P t"
  by (induction t) auto

lemma set_m_QUERY:
  "set (m REGEX_QUERY (St i t c)) =
     (case t of [] \<Rightarrow> {}
      | a # t' \<Rightarrow> if a = 0x3F \<and> list_all dot t' then {St (i + length t) [] c} else {})"
proof (cases t)
  case Nil
  then show ?thesis by (simp add: REGEX_QUERY_def lit_def)
next
  case (Cons a t')
  have le: "length (takeWhile dot t') \<le> length t'" by (rule length_takeWhile_le)
  have "set (m (Seq (star (Chr dot)) (Seq Eol Eps)) (St j t' c)) =
      (if list_all dot t' then {St (j + length t') [] c} else {})" for j
  proof (cases "list_all dot t'")
    case True
    then have "length (takeWhile dot t') = length t'" by (simp add: takeWhile_all_length)
    then show ?thesis using True
      by (auto simp: star_def set_rep_Chr intro!: exI [of _ "length t'"])
  next
    case False
    then have "length (takeWhile dot t') < length t'"
      using le takeWhile_all_length [of dot t'] by linarith
    then show ?thesis using False
      by (auto simp: star_def set_rep_Chr)
  qed
  then show ?thesis using Cons
    by (simp add: REGEX_QUERY_def lit_def del: m.simps(5) add: set_m_Seq)
qed

lemma search_QUERY:
  "list_all dot t \<Longrightarrow>
   (case search REGEX_QUERY s i t of
      None \<Rightarrow> 0x3F \<notin> set t
    | Some (i', j, c) \<Rightarrow> 0x3F \<in> set t \<and> i' = i + length (takeWhile (\<lambda>c. c \<noteq> 0x3F) t)
        \<and> j = i + length t)"
proof (induction t arbitrary: i)
  case Nil
  have "m REGEX_QUERY (St i [] (\<lambda>k. None)) = []"
    using set_m_QUERY [of i "[]"] by simp
  then show ?case by (subst search.simps) simp
next
  case (Cons a t)
  show ?case
  proof (cases "a = 0x3F")
    case True
    then have st: "set (m REGEX_QUERY (St i (a # t) (\<lambda>k. None))) = {St (i + length (a # t)) [] (\<lambda>k. None)}"
      using Cons.prems by (simp add: set_m_QUERY)
    then obtain y ys where y: "m REGEX_QUERY (St i (a # t) (\<lambda>k. None)) = y # ys"
      by (cases "m REGEX_QUERY (St i (a # t) (\<lambda>k. None))") auto
    then have "y = St (i + length (a # t)) [] (\<lambda>k. None)" using st by auto
    then show ?thesis using y True
      by (subst search.simps) simp
  next
    case False
    then have "set (m REGEX_QUERY (St i (a # t) (\<lambda>k. None))) = {}"
      by (simp add: set_m_QUERY)
    then have e: "m REGEX_QUERY (St i (a # t) (\<lambda>k. None)) = []" by simp
    have "list_all dot t" using Cons.prems by simp
    from Cons.IH [OF this, of "Suc i"] show ?thesis using e False
      by (subst search.simps) (auto split: option.splits)
  qed
qed

lemma strip_query_dot:
  assumes "list_all dot s"
  shows "strip_query s = takeWhile (\<lambda>c. c \<noteq> 0x3F) s"
proof (cases "exec REGEX_QUERY s")
  case None
  then have "0x3F \<notin> set s"
    using search_QUERY [OF assms, where s = s and i = 0] by (simp add: exec_def)
  then have "takeWhile (\<lambda>c. c \<noteq> 0x3F) s = s"
    by (auto simp: takeWhile_eq_all_conv)
  moreover have "strip_query s = s" using None by (simp add: strip_query_def replace_def)
  ultimately show ?thesis by (simp only:)
next
  case (Some r)
  obtain i' j c where r: "r = (i', j, c)" by (cases r)
  have "i' = length (takeWhile (\<lambda>c. c \<noteq> 0x3F) s) \<and> j = length s"
    using search_QUERY [OF assms, where s = s and i = 0] Some r by (simp add: exec_def)
  moreover have "take (length (takeWhile (\<lambda>c. c \<noteq> 0x3F) s)) s = takeWhile (\<lambda>c. c \<noteq> 0x3F) s"
    by (metis takeWhile_eq_take)
  ultimately show ?thesis using Some r by (simp add: strip_query_def replace_def)
qed

lemma strip_query_no_query: "list_all dot s \<Longrightarrow> 0x3F \<notin> set (strip_query s)"
  by (auto simp: strip_query_dot dest: set_takeWhileD)

lemma reach_Eps: "reach Eps []"
  by (simp add: reach_def)

lemma reach_Seq: "reach a u \<Longrightarrow> reach b v \<Longrightarrow> reach (Seq a b) (u @ v)"
proof (unfold reach_def, intro allI)
  fix i s c
  assume a: "\<forall>i s c. St (i + length u) s c \<in> set (m a (St i (u @ s) c))"
    and b: "\<forall>i s c. St (i + length v) s c \<in> set (m b (St i (v @ s) c))"
  from a have "St (i + length u) (v @ s) c \<in> set (m a (St i (u @ (v @ s)) c))" by blast
  moreover from b have "St ((i + length u) + length v) s c \<in> set (m b (St (i + length u) (v @ s) c))"
    by blast
  ultimately have "St ((i + length u) + length v) s c \<in> set (m (Seq a b) (St i (u @ (v @ s)) c))"
    unfolding set_m_Seq by blast
  then show "St (i + length (u @ v)) s c \<in> set (m (Seq a b) (St i ((u @ v) @ s) c))"
    by (simp add: add.assoc)
qed

lemma reach_Alt1: "reach a u \<Longrightarrow> reach (Alt a b) u"
  by (simp add: reach_def)

lemma reach_Alt2: "reach b u \<Longrightarrow> reach (Alt a b) u"
  by (simp add: reach_def)

lemma reach_Chr: "P a \<Longrightarrow> reach (Chr P) [a]"
  by (simp add: reach_def)

lemma reach_cat_Cons: "reach r u \<Longrightarrow> reach (cat rs) v \<Longrightarrow> reach (cat (r # rs)) (u @ v)"
  unfolding cat_Cons by (rule reach_Seq)

lemma reach_cat_Nil: "reach (cat []) []"
  unfolding cat_Nil by (rule reach_Eps)

lemma reach_chrs:
  "list_all2 (\<lambda>P a. P a) Ps w \<Longrightarrow> reach (cat (map Chr Ps)) w"
proof (induction Ps w rule: list_all2_induct)
  case Nil
  show ?case using reach_cat_Nil by simp
next
  case (Cons P Ps a w)
  have "reach (cat (Chr P # map Chr Ps)) ([a] @ w)"
    using Cons by (intro reach_cat_Cons reach_Chr)
  then show ?case by simp
qed

lemma reach_liti: "same_letters w (js l) \<Longrightarrow> reach (liti l) w"
proof -
  assume "same_letters w (js l)"
  then have "map Canonicalize w = map (\<lambda>c. Canonicalize (of_char c)) l"
    by (simp add: same_letters_def js_def)
  then have "list_all2 (\<lambda>P a. P a) (map (\<lambda>c x. Canonicalize x = Canonicalize (of_char c)) l) w"
  proof (induction l arbitrary: w)
    case Nil
    then show ?case by simp
  next
    case (Cons c l)
    then obtain a w' where "w = a # w'" by (cases w) auto
    then show ?case using Cons by simp
  qed
  then have "reach (cat (map Chr (map (\<lambda>c x. Canonicalize x = Canonicalize (of_char c)) l))) w"
    by (rule reach_chrs)
  then show ?thesis by (simp add: liti_def comp_def)
qed

lemma same_letters_refl: "same_letters w w"
  by (simp add: same_letters_def)

lemma reach_liti_js: "reach (liti l) (js l)"
  by (rule reach_liti) (rule same_letters_refl)

lemma rep_here: "mn = 0 \<Longrightarrow> x \<in> set (rep ks f g mn mx x)"
  by (subst rep.simps) (simp add: Let_def)

lemma rep_done: "x \<in> set (rep ks f g mn (Some 0) x)"
  by (subst rep.simps) simp

lemma rep_iter:
  assumes "mx \<noteq> Some 0" and "z \<in> set (f (clear ks x))"
    and "mn \<noteq> 0 \<or> length (rest z) < length (rest x)"
    and "y \<in> set (rep ks f g (mn - 1) (dec mx) z)"
  shows "y \<in> set (rep ks f g mn mx x)"
proof -
  have "y \<in> set (concat (map (\<lambda>y.
                     if mn = 0 \<and> \<not> length (rest y) < length (rest x) then []
                     else rep ks f g (mn - 1) (dec mx) y) (f (clear ks x))))"
    using assms(2,3,4) by auto
  then show ?thesis
    using assms(1) by (subst rep.simps) (simp only: Let_def if_False, auto)
qed

lemma groups_chrs: "groups (cat (map Chr Ps)) = []"
  by (induction Ps) simp_all

lemma groups_liti: "groups (liti l) = []"
  using groups_chrs [of "map (\<lambda>c x. Canonicalize x = Canonicalize (of_char c)) l"]
  by (simp add: liti_def comp_def)

lemma reach_opt_skip: "reach (opt r) []"
  by (simp add: reach_def opt_def rep_here)

lemma reach_opt_take:
  assumes "groups r = []" and "reach r u" and "u \<noteq> []"
  shows "reach (opt r) u"
proof (unfold reach_def, intro allI)
  fix i s c
  let ?x = "St i (u @ s) c" and ?y = "St (i + length u) s c"
  have 1: "?y \<in> set (m r (clear [] ?x))" using assms(2) by (simp add: reach_def)
  have 2: "(0::nat) \<noteq> 0 \<or> length (rest ?y) < length (rest ?x)" using assms(3) by simp
  have 3: "?y \<in> set (rep [] (m r) True (0 - 1) (dec (Some 1)) ?y)"
    by (simp add: dec_def rep_done)
  have "?y \<in> set (rep [] (m r) True 0 (Some 1) ?x)"
    by (rule rep_iter [OF _ 1 2 3]) simp
  then show "?y \<in> set (m (opt r) ?x)" using assms(1) by (simp add: opt_def)
qed

lemma reach_rep_none:
  assumes g: "groups r = []" and r: "reach r [a]"
  shows "mn \<le> n \<Longrightarrow> reach (Rep gr mn None r) (replicate n a)"
proof (induction n arbitrary: mn)
  case 0
  then show ?case by (simp add: reach_def rep_here)
next
  case (Suc n)
  have ih: "reach (Rep gr (mn - 1) None r) (replicate n a)"
    using Suc.prems by (intro Suc.IH) simp
  show ?case
  proof (unfold reach_def, intro allI)
    fix i s c
    let ?x = "St i (replicate (Suc n) a @ s) c"
    let ?z = "St (Suc i) (replicate n a @ s) c"
    let ?y = "St (i + length (replicate (Suc n) a)) s c"
    have 1: "?z \<in> set (m r (clear [] ?x))"
      using r [unfolded reach_def, rule_format, of i "replicate n a @ s" c] by simp
    have 2: "?y \<in> set (rep [] (m r) gr (mn - 1) (dec None) ?z)"
      using ih [unfolded reach_def, rule_format, of "Suc i" s c] g by (simp add: dec_def)
    have "?y \<in> set (rep [] (m r) gr mn None ?x)"
      using _ 1 _ 2 by (rule rep_iter) simp_all
    then show "?y \<in> set (m (Rep gr mn None r) ?x)" using g by simp
  qed
qed

lemma reach_rep_Chr:
  "list_all P u \<Longrightarrow> mn \<le> length u \<Longrightarrow> reach (Rep g mn None (Chr P)) u"
proof (unfold reach_def, intro allI)
  fix i s c
  assume a: "list_all P u" "mn \<le> length u"
  have "takeWhile P (u @ s) = u @ takeWhile P s"
    using a(1) by (simp add: list_all_iff)
  then have "mn \<le> length u \<and> length u \<le> length (takeWhile P (u @ s)) \<and>
      St (i + length u) s c = St (i + length u) (drop (length u) (u @ s)) c"
    using a(2) by simp
  then have "St (i + length u) s c \<in> set (rep [] (m (Chr P)) g mn None (St i (u @ s) c))"
    unfolding set_rep_Chr by blast
  then show "St (i + length u) s c \<in> set (m (Rep g mn None (Chr P)) (St i (u @ s) c))"
    by simp
qed

lemma reach_times:
  assumes g: "groups r = []"
  shows "list_all (reach r) us \<Longrightarrow> reach (Rep gr (length us) (Some (length us)) r) (concat us)"
proof (induction us)
  case Nil
  show ?case by (simp add: reach_def rep_done)
next
  case (Cons u us)
  have ih: "reach (Rep gr (length us) (Some (length us)) r) (concat us)"
    using Cons by simp
  have ru: "reach r u" using Cons.prems by simp
  show ?case
  proof (unfold reach_def, intro allI)
    fix i s c
    let ?x = "St i (concat (u # us) @ s) c"
    let ?z = "St (i + length u) (concat us @ s) c"
    let ?y = "St (i + length (concat (u # us))) s c"
    have 1: "?z \<in> set (m r (clear [] ?x))"
      using ru [unfolded reach_def, rule_format, of i "concat us @ s" c] by simp
    have 2: "?y \<in> set (rep [] (m r) gr (length (u # us) - 1) (dec (Some (length (u # us)))) ?z)"
      using ih [unfolded reach_def, rule_format, of "i + length u" s c] g
      by (simp add: dec_def add.assoc)
    have "?y \<in> set (rep [] (m r) gr (length (u # us)) (Some (length (u # us))) ?x)"
      using _ 1 _ 2 by (rule rep_iter) simp_all
    then show "?y \<in> set (m (Rep gr (length (u # us)) (Some (length (u # us))) r) ?x)"
      using g by simp
  qed
qed

lemma test_reach: "reach r u \<Longrightarrow> test (Seq Bol r) (u @ s)"
proof -
  assume "reach r u"
  then have "St (0 + length u) s (\<lambda>k. None) \<in> set (m r (St 0 (u @ s) (\<lambda>k. None)))"
    unfolding reach_def by blast
  then have "m r (St 0 (u @ s) (\<lambda>k. None)) \<noteq> []"
    by (metis empty_iff empty_set)
  then show ?thesis unfolding test_anchored .
qed

section \<open>Facts about the line splitter and the supervisor\<close>


lemma split_not_Nil: "split sep s \<noteq> []"
  by (induction s) (auto split: list.splits)

lemma split_append:
  "split sep (a @ b) = butlast (split sep a) @ split sep (last (split sep a) @ b)"
proof (induction a)
  case Nil
  show ?case by simp
next
  case (Cons c a)
  obtain l ls where sp: "split sep a = l # ls"
    using split_not_Nil [of sep a] by (cases "split sep a") auto
  show ?case
  proof (cases "c = sep")
    case True
    then show ?thesis using Cons split_not_Nil [of sep a] by simp
  next
    case False
    show ?thesis
    proof (cases ls)
      case Nil
      then show ?thesis using Cons False sp by simp
    next
      case (Cons l' ls')
      then show ?thesis using Cons.IH False sp by simp
    qed
  qed
qed

lemma split_no_sep: "l \<in> set (split sep s) \<Longrightarrow> sep \<notin> set l"
proof (induction s arbitrary: l)
  case Nil
  then show ?case by simp
next
  case (Cons c s)
  then show ?case
    by (cases "split sep s") (auto split: if_splits)
qed

lemma split_join:
  "concat (map (\<lambda>l. l @ [sep]) (butlast (split sep s))) @ last (split sep s) = s"
proof (induction s)
  case Nil
  show ?case by simp
next
  case (Cons c s)
  obtain l ls where sp: "split sep s = l # ls"
    using split_not_Nil [of sep s] by (cases "split sep s") auto
  show ?case
    using Cons sp by (cases ls) auto
qed

lemma split_no_sep_id: "sep \<notin> set s \<Longrightarrow> split sep s = [s]"
  by (induction s) auto

lemma feed_eq:
  "0x0A \<notin> set ov \<Longrightarrow>
   feed ov cs = (butlast (split 0x0A (ov @ concat (map chunk_text cs))),
                 last (split 0x0A (ov @ concat (map chunk_text cs))))"
proof (induction cs arbitrary: ov)
  case Nil
  then show ?case by (simp add: split_no_sep_id)
next
  case (Cons c cs)
  let ?a = "ov @ chunk_text c"
  let ?b = "concat (map chunk_text cs)"
  have ov': "0x0A \<notin> set (last (split 0x0A ?a))"
    using split_no_sep [of "last (split 0x0A ?a)" "0x0A" ?a] split_not_Nil [of "0x0A" ?a]
    by simp
  have sp: "split 0x0A (?a @ ?b) = butlast (split 0x0A ?a) @ split 0x0A (last (split 0x0A ?a) @ ?b)"
    by (rule split_append)
  have ne: "split 0x0A (last (split 0x0A ?a) @ ?b) \<noteq> []"
    by (rule split_not_Nil)
  show ?case
    using Cons.IH [OF ov'] sp ne
    by (simp add: split_chunk_def Let_def butlast_append)
qed

lemma run_spawns:
  "run_events cfg D p st evs = Inr st' \<Longrightarrow>
   spawns st' = spawns st @ replicate (count_list evs Exit) (0, p)"
proof (induction evs arbitrary: st)
  case Nil
  then show ?case by simp
next
  case (Cons ev evs)
  then obtain st1 where s1: "step cfg D p st ev = Inr st1"
    and r: "run_events cfg D p st1 evs = Inr st'"
    by (auto split: sum.splits)
  have "spawns st1 = spawns st @ (if ev = Exit then [(0, p)] else [])"
    using s1 by (cases ev) (auto simp: step_def tail_def Let_def split: sum.splits prod.splits)
  then show ?case
    using Cons.IH [OF r] by (auto simp: replicate_append_same)
qed

section \<open>Facts about the parser\<close>

lemma bits_le: "n < 2 ^ k \<Longrightarrow> bits n \<le> k"
proof (induction k arbitrary: n)
  case 0
  then show ?case by (subst bits.simps) simp
next
  case (Suc k)
  show ?case
  proof (cases "n \<le> 0")
    case True
    then show ?thesis by (subst bits.simps) simp
  next
    case False
    have "n div 2 < 2 ^ k" using Suc.prems by simp
    then have "bits (n div 2) \<le> k" by (rule Suc.IH)
    then show ?thesis using False by (subst bits.simps) simp
  qed
qed

lemma round_double_exact:
  assumes "\<bar>z\<bar> < 2 ^ 53"
  shows "round_double z = Finite z"
proof -
  have "bits \<bar>z\<bar> \<le> 53" using assms by (rule bits_le)
  then have sh: "bits \<bar>z\<bar> - 53 = 0" by simp
  have "\<bar>z\<bar> < (2 :: int) ^ 1024"
    using assms by (rule less_trans) simp
  then have "\<not> (2 :: int) ^ 1024 \<le> \<bar>z\<bar>" by simp
  then show ?thesis
    unfolding round_double_def Let_def sh by (simp del: power_numeral)
qed

lemma round_double_code [code]:
  "round_double z =
     (if \<bar>z\<bar> < 9007199254740992 then Finite z
      else
        let a = \<bar>z\<bar>;
            sh = bits a - 53;
            q = a div 2 ^ sh;
            r = a mod 2 ^ sh;
            q' = (if 2 ^ sh < 2 * r \<or> (2 * r = 2 ^ sh \<and> odd q) then q + 1 else q);
            v = q' * 2 ^ sh
        in if 2 ^ 1024 \<le> v then (if z < 0 then NegInfinity else PosInfinity)
           else Finite (if z < 0 then - v else v))"
proof (cases "\<bar>z\<bar> < 9007199254740992")
  case True
  then have "\<bar>z\<bar> < 2 ^ 53" by simp
  then show ?thesis using True by (simp only: round_double_exact if_True)
next
  case False
  then show ?thesis by (simp only: round_double_def if_False)
qed

lemma round_double_not_negative:
  assumes "0 \<le> z"
  shows "\<not> negative (round_double z)"
proof -
  define sh where "sh = bits \<bar>z\<bar> - 53"
  define q where "q = \<bar>z\<bar> div 2 ^ sh"
  define q' where "q' = (if 2 ^ sh < 2 * (\<bar>z\<bar> mod 2 ^ sh) \<or>
      (2 * (\<bar>z\<bar> mod 2 ^ sh) = 2 ^ sh \<and> odd q) then q + 1 else q)"
  have "0 \<le> q" unfolding q_def by (simp add: pos_imp_zdiv_nonneg_iff)
  then have "0 \<le> q'" unfolding q'_def by simp
  then have v: "0 \<le> q' * 2 ^ sh" by simp
  have "round_double z = (if 2 ^ 1024 \<le> q' * 2 ^ sh then PosInfinity else Finite (q' * 2 ^ sh))"
    using assms unfolding round_double_def Let_def q'_def q_def sh_def
    by (simp only: if_False not_less [symmetric] not_not)
  then show ?thesis using v by (simp add: negative_def del: power_numeral)
qed

lemma round_double_zero: "round_double 0 = Finite 0"
  by (rule round_double_exact) simp

lemma round_double_rounds: "round_double 9007199254740993 = Finite 9007199254740992"
  by code_simp

lemma round_double_overflows: "round_double (10 ^ 309) = PosInfinity"
  by code_simp

lemma parseLine_Some_D:
  assumes "parseLine cfg D line = Inr (Some r)"
  shows "\<exists>url ref. field line 4 = Some url \<and> field line 7 = Some ref \<and>
      field line 5 \<noteq> Some (js ''403'') \<and>
      path r = strip_query url \<and> referrer r = strip_query ref \<and>
      path r \<notin> statsIgnorePaths cfg \<and> test REGEX_EXTERNAL (path r) \<and>
      \<not> test REGEX_LOOOPBACK_URL (referrer r) \<and>
      \<not> (test REGEX_RAWGIT (referrer r) \<and> \<not> test REGEX_EXTERNAL (referrer r)) \<and>
      size r = number_or_zero (parseInt10 (ToString (field line 6)))"
  using assms
  by (auto simp: parseLine_def field_def Let_def split: option.splits if_splits)

lemma count_slashes:
  assumes "p = [0x2F] @ a @ [0x2F] @ b @ [0x2F] @ c @ [0x2F] @ d @ r"
  shows "4 \<le> count_list p (0x2F :: cu)"
  unfolding assms by (simp add: count_list_append)

lemma digit_value_nonneg: "digit c \<Longrightarrow> 0 \<le> uint c - 0x30"
  by (simp add: digit_def Let_def)

lemma digits_value_nonneg:
  "0 \<le> acc \<Longrightarrow> list_all digit ds \<Longrightarrow> 0 \<le> digits_value acc ds"
proof (induction ds arbitrary: acc)
  case Nil
  then show ?case by simp
next
  case (Cons c ds)
  have "0 \<le> 10 * acc + (uint c - 0x30)"
    using Cons.prems digit_value_nonneg [of c] by simp
  then show ?case using Cons by simp
qed

lemma list_all_takeWhile: "list_all P (takeWhile P xs)"
  by (induction xs) auto

lemma bodies_CLF_6: "bodies 6 REGEX_CLF = [plus (Chr nonspace)]"
  by (simp add: REGEX_CLF_def lit_def plus_def plus_lazy_def opt_def star_def)

lemma field_bytes_nonspace:
  "field line 6 = Some b \<Longrightarrow> list_all nonspace b \<and> b \<noteq> []"
  using field_consumes [of line 6 b] consumes_plus_Chr [of nonspace b]
  by (simp add: bodies_CLF_6)

lemma parseInt10_nonspace:
  assumes "list_all nonspace b" and "b \<noteq> []"
  shows "parseInt10 b =
    (if digits_of b = [] then None
     else Some (round_double (sign_of b * digits_value 0 (digits_of b))))"
proof -
  obtain c cs where b: "b = c # cs" using assms(2) by (cases b) auto
  have "\<not> (isWhiteSpace c \<or> isLineTerminator c)"
    using assms(1) b by (simp add: nonspace_def)
  then have "dropWhile (\<lambda>c. isWhiteSpace c \<or> isLineTerminator c) b = b"
    using b by simp
  then show ?thesis
    unfolding parseInt10_def sign_of_def digits_of_def using b by (simp add: Let_def)
qed

lemma large_bytes_rounded:
  "field line_large 6 = Some (js ''9007199254740993'') \<and>
   parseLine cfg0 date0 line_large =
     Inr (Some \<lparr>path = js ''/user/repo/main/file.js'', referrer = js ''https://example.com/page'',
                 size = Finite 9007199254740992, time = 1602363336000\<rparr>)"
proof -
  have f: "field line_large 6 = Some (js ''9007199254740993'')"
    by code_simp
  have h: "parseLine cfg0 date0 line_large =
     Inr (Some \<lparr>path = js ''/user/repo/main/file.js'', referrer = js ''https://example.com/page'',
                 size = Finite 9007199254740992, time = 1602363336000\<rparr>)"
    by code_simp
  show ?thesis using f h by simp
qed

lemma split_tail:
  "split sep cs = l # ls \<Longrightarrow> ls \<noteq> [] \<Longrightarrow> \<exists>q'. cs = l @ sep # q' \<and> split sep q' = ls"
proof (induction cs arbitrary: l ls)
  case Nil
  then show ?case by simp
next
  case (Cons c cs)
  show ?case
  proof (cases "c = sep")
    case True
    then show ?thesis using Cons.prems by auto
  next
    case False
    obtain l' ls' where sp: "split sep cs = l' # ls'"
      using split_not_Nil [of sep cs] by (cases "split sep cs") auto
    then have "l = c # l'" "ls = ls'" using Cons.prems(1) False by simp_all
    moreover obtain q' where "cs = l' @ sep # q'" "split sep q' = ls'"
      using Cons.IH [OF sp] Cons.prems(2) \<open>ls = ls'\<close> by blast
    ultimately show ?thesis by simp
  qed
qed

lemma segments_peel:
  "Suc (Suc k) \<le> length (filter (\<lambda>l. l \<noteq> []) (split sep q)) \<Longrightarrow>
   \<exists>a q'. q = a @ sep # q' \<and> a \<noteq> [] \<and> Suc k \<le> length (filter (\<lambda>l. l \<noteq> []) (split sep q'))"
proof (induction q)
  case Nil
  then show ?case by simp
next
  case (Cons c cs)
  show ?case
  proof (cases "c = sep")
    case True
    then have "Suc (Suc k) \<le> length (filter (\<lambda>l. l \<noteq> []) (split sep cs))"
      using Cons.prems by simp
    from Cons.IH [OF this] obtain a q' where
      "cs = a @ sep # q'" "Suc k \<le> length (filter (\<lambda>l. l \<noteq> []) (split sep q'))" by blast
    then have "c # cs = (c # a) @ sep # q' \<and> c # a \<noteq> [] \<and>
        Suc k \<le> length (filter (\<lambda>l. l \<noteq> []) (split sep q'))" by simp
    then show ?thesis by blast
  next
    case False
    obtain l ls where sp: "split sep cs = l # ls"
      using split_not_Nil [of sep cs] by (cases "split sep cs") auto
    then have n: "Suc k \<le> length (filter (\<lambda>l. l \<noteq> []) ls)"
      using Cons.prems False by simp
    then have "ls \<noteq> []" by auto
    from split_tail [OF sp this] obtain q' where q': "cs = l @ sep # q'" "split sep q' = ls"
      by blast
    then have "c # cs = (c # l) @ sep # q' \<and> c # l \<noteq> [] \<and>
        Suc k \<le> length (filter (\<lambda>l. l \<noteq> []) (split sep q'))"
      using n by simp
    then show ?thesis by blast
  qed
qed

lemma segments_shape:
  assumes "take 1 p = [0x2F]" and "4 \<le> length (segments p)"
  shows "\<exists>a b c d r. p = [0x2F] @ a @ [0x2F] @ b @ [0x2F] @ c @ [0x2F] @ d @ r
           \<and> a \<noteq> [] \<and> b \<noteq> [] \<and> c \<noteq> [] \<and> d \<noteq> []"
proof -
  let ?N = "\<lambda>q. length (filter (\<lambda>l. l \<noteq> []) (split 0x2F q))"
  obtain q where p: "p = 0x2F # q" using assms(1) by (cases p) auto
  have "4 \<le> ?N q" using assms(2) p by (simp add: segments_def)
  then have n0: "Suc (Suc (Suc (Suc 0))) \<le> ?N q" by simp
  have "\<exists>a q1. q = a @ 0x2F # q1 \<and> a \<noteq> [] \<and> Suc (Suc (Suc 0)) \<le> ?N q1"
    using n0 by (rule segments_peel)
  then obtain a q1 where 1: "q = a @ 0x2F # q1" "a \<noteq> []" "Suc (Suc (Suc 0)) \<le> ?N q1"
    by blast
  have "\<exists>b q2. q1 = b @ 0x2F # q2 \<and> b \<noteq> [] \<and> Suc (Suc 0) \<le> ?N q2"
    using 1(3) by (rule segments_peel)
  then obtain b q2 where 2: "q1 = b @ 0x2F # q2" "b \<noteq> []" "Suc (Suc 0) \<le> ?N q2"
    by blast
  have "\<exists>c q3. q2 = c @ 0x2F # q3 \<and> c \<noteq> [] \<and> Suc 0 \<le> ?N q3"
    using 2(3) by (rule segments_peel)
  then obtain c q3 where 3: "q2 = c @ 0x2F # q3" "c \<noteq> []" "Suc 0 \<le> ?N q3"
    by blast
  have "q3 \<noteq> []" using 3(3) by (cases q3) simp_all
  then obtain x r where 4: "q3 = x # r" by (cases q3) auto
  have "p = [0x2F] @ a @ [0x2F] @ b @ [0x2F] @ c @ [0x2F] @ [x] @ r \<and>
      a \<noteq> [] \<and> b \<noteq> [] \<and> c \<noteq> [] \<and> [x] \<noteq> []"
    using p 1 2 3 4 by simp
  then show ?thesis by (intro exI)
qed

lemma forwarded_iff: "forwarded res \<longleftrightarrow> (\<exists>r. res = Inr (Some r))"
  by (auto simp: forwarded_def split: sum.splits option.splits)

lemma js_append: "js (a @ b) = js a @ js b"
  by (simp add: js_def)

lemma same_letters_split:
  assumes "same_letters w (js (a @ b))"
  shows "same_letters (take (length a) w) (js a) \<and> same_letters (drop (length a) w) (js b)"
proof -
  have e: "map Canonicalize w = map Canonicalize (js a) @ map Canonicalize (js b)"
    using assms by (simp add: same_letters_def js_append)
  have l: "length (map Canonicalize (js a)) = length a" by (simp add: js_def)
  have "take (length a) (map Canonicalize w) = map Canonicalize (js a)"
    unfolding e using l by simp
  moreover have "drop (length a) (map Canonicalize w) = map Canonicalize (js b)"
    unfolding e using l by simp
  ultimately show ?thesis by (simp add: same_letters_def take_map drop_map)
qed

lemma reach_scheme:
  assumes "same_letters scheme (js ''http://'') \<or> same_letters scheme (js ''https://'')"
    and "reach (cat rs) v"
  shows "reach (cat (liti ''http'' # opt (liti ''s'') # liti ''://'' # rs)) (scheme @ v)"
  using assms(1)
proof
  assume "same_letters scheme (js ''http://'')"
  then have "same_letters scheme (js (''http'' @ ''://''))" by simp
  from same_letters_split [OF this]
  have 1: "reach (liti ''http'') (take 4 scheme)" and 3: "reach (liti ''://'') (drop 4 scheme)"
    by (simp_all add: reach_liti eval_nat_numeral)
  have "reach (cat (liti ''http'' # opt (liti ''s'') # liti ''://'' # rs))
          (take 4 scheme @ [] @ drop 4 scheme @ v)"
    by (intro reach_cat_Cons 1 3 reach_opt_skip assms(2))
  moreover have "take 4 scheme @ [] @ drop 4 scheme @ v = scheme @ v"
    by (simp only: append_Nil append_assoc [symmetric] append_take_drop_id)
  ultimately show ?thesis by (simp only:)
next
  assume "same_letters scheme (js ''https://'')"
  then have "same_letters scheme (js (''http'' @ ''s://''))" by simp
  from same_letters_split [OF this]
  have 1: "reach (liti ''http'') (take 4 scheme)"
    and r: "same_letters (drop 4 scheme) (js (''s'' @ ''://''))"
    by (simp_all add: reach_liti eval_nat_numeral)
  from same_letters_split [OF r]
  have s: "same_letters (take 1 (drop 4 scheme)) (js ''s'')"
    and 3: "reach (liti ''://'') (drop 1 (drop 4 scheme))"
    by (simp_all add: reach_liti)
  have "take 1 (drop 4 scheme) \<noteq> []"
    using s by (auto simp: same_letters_def js_def)
  then have 2: "reach (opt (liti ''s'')) (take 1 (drop 4 scheme))"
    using s by (intro reach_opt_take groups_liti reach_liti)
  have "reach (cat (liti ''http'' # opt (liti ''s'') # liti ''://'' # rs))
          (take 4 scheme @ take 1 (drop 4 scheme) @ drop 1 (drop 4 scheme) @ v)"
    by (intro reach_cat_Cons 1 2 3 assms(2))
  moreover have "take 4 scheme @ take 1 (drop 4 scheme) @ drop 1 (drop 4 scheme) @ v = scheme @ v"
    by (simp only: append_assoc [symmetric]) (simp only: append_assoc append_take_drop_id)
  ultimately show ?thesis by (simp only:)
qed

lemma reach_zero: "reach (liti ''0'') [0x30]"
  using reach_liti_js [of "''0''"] by (simp add: js_def)

lemma reach_zero_group:
  assumes "0 < n"
  shows "reach (cat [plus (liti ''0''), liti '':'']) (replicate n 0x30 @ js '':'')"
proof -
  have "reach (Rep True 1 None (liti ''0'')) (replicate n 0x30)"
    using assms by (intro reach_rep_none groups_liti reach_zero) simp
  then have "reach (cat [plus (liti ''0''), liti '':'']) (replicate n 0x30 @ js '':'' @ [])"
    unfolding plus_def by (intro reach_cat_Cons reach_liti_js reach_cat_Nil)
  then show ?thesis by simp
qed

lemma groups_zero_group: "groups (cat [plus (liti ''0''), liti '':'']) = []"
  by (simp add: cat_def plus_def groups_liti)

lemma reach_zero_groups:
  assumes "length ns = 7" and "\<forall>n \<in> set ns. 0 < n"
  shows "reach (times 7 (cat [plus (liti ''0''), liti '':''])) (zero_groups ns)"
proof -
  let ?us = "map (\<lambda>n. replicate n 0x30 @ js '':'') ns"
  have "list_all (reach (cat [plus (liti ''0''), liti '':''])) ?us"
    by (simp only: list_all_iff set_map) (blast intro: reach_zero_group assms(2) [rule_format])
  from reach_times [OF groups_zero_group this]
  show ?thesis using assms(1) by (simp add: times_def zero_groups_def)
qed

lemma reach_host:
  assumes "host \<in> loopback_hosts"
  shows "reach (Alt (liti ''localhost'')
       (Alt (liti ''127.0.0.1'')
         (cat [liti ''['',
               Alt (times 7 (cat [plus (liti ''0''), liti '':''])) (liti ''::''),
               star (liti ''0''), liti ''1'', opt (liti ''/128''), liti '']'']))) host"
proof -
  consider (a) "same_letters host (js ''localhost'')" | (b) "host = js ''127.0.0.1''"
    | (c) z k sfx where "host = js ''['' @ z @ replicate k 0x30 @ js ''1'' @ sfx @ js '']''"
        "z = js ''::'' \<or> (\<exists>ns. length ns = 7 \<and> (\<forall>n \<in> set ns. 0 < n) \<and> z = zero_groups ns)"
        "sfx = [] \<or> sfx = js ''/128''"
    using assms unfolding loopback_hosts_def by blast
  then show ?thesis
  proof cases
    case a
    then show ?thesis by (intro reach_Alt1 reach_liti)
  next
    case b
    show ?thesis unfolding b by (intro reach_Alt2 reach_Alt1 reach_liti_js)
  next
    case c
    have z: "reach (Alt (times 7 (cat [plus (liti ''0''), liti '':''])) (liti ''::'')) z"
      using c(2)
    proof
      assume "z = js ''::''"
      then show ?thesis by (simp add: reach_Alt2 reach_liti_js)
    next
      assume "\<exists>ns. length ns = 7 \<and> (\<forall>n \<in> set ns. 0 < n) \<and> z = zero_groups ns"
      then obtain ns where n: "length ns = 7" "\<forall>n \<in> set ns. 0 < n" "z = zero_groups ns"
        by blast
      show ?thesis unfolding n(3) using n(1,2) by (intro reach_Alt1 reach_zero_groups)
    qed
    have k: "reach (star (liti ''0'')) (replicate k 0x30)"
      unfolding star_def by (intro reach_rep_none groups_liti reach_zero) simp
    have s: "reach (opt (liti ''/128'')) sfx"
      using c(3)
    proof
      assume "sfx = []"
      then show ?thesis by (simp add: reach_opt_skip)
    next
      assume e: "sfx = js ''/128''"
      have "js ''/128'' \<noteq> []" by (simp add: js_def)
      then show ?thesis unfolding e by (intro reach_opt_take groups_liti reach_liti_js)
    qed
    have "reach (cat [liti ''['',
               Alt (times 7 (cat [plus (liti ''0''), liti '':''])) (liti ''::''),
               star (liti ''0''), liti ''1'', opt (liti ''/128''), liti '']''])
           (js ''['' @ z @ replicate k 0x30 @ js ''1'' @ sfx @ js '']'' @ [])"
      by (intro reach_cat_Cons reach_cat_Nil reach_liti_js z k s)
    then show ?thesis unfolding c(1) by (simp add: reach_Alt2)
  qed
qed

lemma reach_port:
  assumes "port \<in> ports"
  shows "reach (opt (cat [liti '':'', plus (Chr digit)])) port"
proof -
  consider (a) "port = []" | (b) ds where "port = js '':'' @ ds" "ds \<noteq> []" "list_all digit ds"
    using assms unfolding ports_def by blast
  then show ?thesis
  proof cases
    case a
    then show ?thesis by (simp add: reach_opt_skip)
  next
    case b
    have "1 \<le> length ds" using b(2) by (cases ds) simp_all
    then have "reach (Rep True 1 None (Chr digit)) ds"
      using b(3) by (intro reach_rep_Chr)
    then have "reach (cat [liti '':'', plus (Chr digit)]) (js '':'' @ ds @ [])"
      unfolding plus_def by (intro reach_cat_Cons reach_cat_Nil reach_liti_js)
    moreover have "groups (cat [liti '':'', plus (Chr digit)]) = []"
      by (simp add: cat_def plus_def groups_liti)
    moreover have "js '':'' @ ds @ [] \<noteq> []" using b(2) by simp
    ultimately have "reach (opt (cat [liti '':'', plus (Chr digit)])) (js '':'' @ ds @ [])"
      by (intro reach_opt_take)
    then show ?thesis unfolding b(1) by simp
  qed
qed

lemma loopback_test:
  assumes "same_letters scheme (js ''http://'') \<or> same_letters scheme (js ''https://'')"
    and "host \<in> loopback_hosts" and "port \<in> ports"
  shows "test REGEX_LOOOPBACK_URL (scheme @ host @ port @ [0x2F] @ t)"
proof -
  have sl: "reach (liti ''/'') [0x2F]"
    using reach_liti_js [of "''/''"] by (simp add: js_def)
  have "reach (cat [Alt (liti ''localhost'')
       (Alt (liti ''127.0.0.1'')
         (cat [liti ''['',
               Alt (times 7 (cat [plus (liti ''0''), liti '':''])) (liti ''::''),
               star (liti ''0''), liti ''1'', opt (liti ''/128''), liti '']''])),
      opt (cat [liti '':'', plus (Chr digit)]),
      liti ''/'']) (host @ port @ [0x2F] @ [])"
    by (intro reach_cat_Cons reach_cat_Nil reach_host reach_port sl assms(2,3))
  from reach_scheme [OF assms(1) this]
  have "test (Seq Bol (cat [liti ''http'', opt (liti ''s''), liti ''://'',
      Alt (liti ''localhost'')
       (Alt (liti ''127.0.0.1'')
         (cat [liti ''['',
               Alt (times 7 (cat [plus (liti ''0''), liti '':''])) (liti ''::''),
               star (liti ''0''), liti ''1'', opt (liti ''/128''), liti '']''])),
      opt (cat [liti '':'', plus (Chr digit)]),
      liti ''/''])) ((scheme @ host @ port @ [0x2F] @ []) @ t)"
    by (rule test_reach)
  then show ?thesis
    by (simp add: REGEX_LOOOPBACK_URL_def cat_Cons)
qed

lemma liti_first:
  assumes "m (Seq (liti (ch # l)) r) (St i s c) \<noteq> []"
  shows "\<exists>a t. s = a # t \<and> Canonicalize a = Canonicalize (of_char ch)"
proof -
  let ?Ps = "map (\<lambda>c x. Canonicalize x = Canonicalize (of_char c)) (ch # l)"
  have e: "liti (ch # l) = cat (map Chr ?Ps)"
    by (simp only: liti_def list.map map_map comp_def)
  from assms have "set (m (Seq (liti (ch # l)) r) (St i s c)) \<noteq> {}" by simp
  then have "set (m (cat (map Chr ?Ps)) (St i s c)) \<noteq> {}"
    unfolding set_m_Seq e by auto
  then have l: "length ?Ps \<le> length s" and a: "list_all2 (\<lambda>P a. P a) ?Ps (take (length ?Ps) s)"
    unfolding set_m_chrs by (simp_all split: if_splits)
  from l obtain a t where s: "s = a # t" by (cases s) auto
  from a have "Canonicalize a = Canonicalize (of_char ch)" unfolding s by simp
  with s show ?thesis by blast
qed

lemma rawgit_not_external:
  assumes "test REGEX_RAWGIT u"
  shows "\<not> test REGEX_EXTERNAL u"
proof
  assume "test REGEX_EXTERNAL u"
  from external_sound [OF this] obtain t where u: "u = 0x2F # t" by auto
  from assms have "m (Seq (liti ''http'') (cat [opt (liti ''s''), liti ''://rawgit'',
      opt (liti ''hub''), liti ''.com/''])) (St 0 u (\<lambda>k. None)) \<noteq> []"
    unfolding REGEX_RAWGIT_def cat_Cons test_anchored .
  from liti_first [OF this] have "Canonicalize (0x2F :: cu) = Canonicalize (of_char CHR ''h'')"
    unfolding u by simp
  then show False by (simp add: Canonicalize_def)
qed

lemma rawgit_referrer_never_forwarded:
  assumes "field line 7 = Some ref" and "test REGEX_RAWGIT (strip_query ref)"
  shows "\<not> forwarded (parseLine cfg Date_parse line)"
proof
  assume "forwarded (parseLine cfg Date_parse line)"
  then obtain r where "parseLine cfg Date_parse line = Inr (Some r)"
    unfolding forwarded_iff by blast
  from parseLine_Some_D [OF this] obtain ref' where
    "field line 7 = Some ref'" "referrer r = strip_query ref'"
    "\<not> (test REGEX_RAWGIT (referrer r) \<and> \<not> test REGEX_EXTERNAL (referrer r))"
    by blast
  then have "test REGEX_EXTERNAL (strip_query ref)"
    using assms by simp
  then show False using rawgit_not_external [OF assms(2)] by simp
qed

lemma missing_referrer_throws:
  assumes "field line 4 = Some url" and "field line 5 \<noteq> Some (js ''403'')"
    and "strip_query url \<notin> statsIgnorePaths cfg" and "test REGEX_EXTERNAL (strip_query url)"
    and "field line 7 = None"
  shows "parseLine cfg Date_parse line = Inl TypeError"
  using assms
  by (auto simp: parseLine_def field_def Let_def split: option.splits)

lemma forwarded_query_stripped:
  assumes "parseLine cfg Date_parse line = Inr (Some r)"
    and "field line 4 = Some url" and "field line 7 = Some ref"
  shows "path r = takeWhile (\<lambda>c. c \<noteq> 0x3F) url \<and>
         (list_all dot ref \<longrightarrow> referrer r = takeWhile (\<lambda>c. c \<noteq> 0x3F) ref)"
proof -
  have "list_all nonspace url" using field_url_nonspace [OF assms(2)] by simp
  then have "list_all dot url" by (simp add: list_all_iff nonspace_dot)
  then have "strip_query url = takeWhile (\<lambda>c. c \<noteq> 0x3F) url" by (rule strip_query_dot)
  moreover have "path r = strip_query url" "referrer r = strip_query ref"
    using parseLine_Some_D [OF assms(1)] assms(2,3) by auto
  ultimately show ?thesis by (simp add: strip_query_dot)
qed

section \<open>The claims\<close>

text \<open>
  C5: a line whose parsed status field is exactly \<open>403\<close> is never forwarded to the
  collector, whatever its other fields are: \<open>parseLine\<close> returns without calling
  \<open>stats.logRequest\<close> and without an exception.
\<close>

theorem status_403_never_forwarded:
  "field line 5 = Some (js ''403'') \<Longrightarrow> parseLine cfg Date_parse line = Inr None"
  by (auto simp: field_def parseLine_def split: option.splits)

theorem status_403_never_forwarded_witness:
  "field line_403 5 = Some (js ''403'') \<and> parseLine cfg0 date0 line_403 = Inr None"
proof -
  have h: "field line_403 5 = Some (js ''403'')"
    by code_simp
  show ?thesis
    using h status_403_never_forwarded [OF h, of cfg0 date0] by simp
qed

text \<open>
  C6: two sequences of chunks with the same concatenation give the same lines, in the
  same order, and the same overflow. The lines are the newline-terminated pieces of
  the stream, each emitted once and in order: joined with their terminators and followed
  by the overflow they give back the stream, and neither a line nor the overflow holds a
  newline.
\<close>

theorem line_splitter_chunk_independent:
  assumes "concat (map chunk_text cs1) = concat (map chunk_text cs2)"
  shows "feed [] cs1 = feed [] cs2 \<and>
    (\<forall>lines ov. feed [] cs1 = (lines, ov) \<longrightarrow>
       concat (map (\<lambda>l. l @ [0x0A]) lines) @ ov = concat (map chunk_text cs1) \<and>
       0x0A \<notin> set ov \<and> (\<forall>l \<in> set lines. 0x0A \<notin> set l))"
proof -
  let ?s = "concat (map chunk_text cs1)"
  have f1: "feed [] cs1 = (butlast (split 0x0A ?s), last (split 0x0A ?s))"
    using feed_eq [of "[]" cs1] by simp
  have f2: "feed [] cs2 = (butlast (split 0x0A ?s), last (split 0x0A ?s))"
    using feed_eq [of "[]" cs2] assms by simp
  have ne: "split 0x0A ?s \<noteq> []" by (rule split_not_Nil)
  have a: "0x0A \<notin> set (last (split 0x0A ?s))"
    using split_no_sep [of "last (split 0x0A ?s)" "0x0A" ?s] ne by simp
  have b: "\<forall>l \<in> set (butlast (split 0x0A ?s)). 0x0A \<notin> set l"
    using split_no_sep [of _ "0x0A" ?s] by (auto dest: in_set_butlastD)
  show ?thesis
    using f1 f2 a b split_join [of "0x0A" ?s] by simp
qed

theorem line_splitter_chunk_independent_witness:
  "concat (map chunk_text chunks_a) = concat (map chunk_text chunks_b) \<and>
   feed [] chunks_a = feed [] chunks_b \<and>
   feed [] chunks_a = ([js ''ab'', js ''cde''], js ''f'')"
proof -
  have h: "concat (map chunk_text chunks_a) = concat (map chunk_text chunks_b)"
    by code_simp
  have v: "feed [] chunks_a = ([js ''ab'', js ''cde''], js ''f'')"
    by code_simp
  show ?thesis
    using h v line_splitter_chunk_independent [OF h] by simp
qed

text \<open>
  C9: the first launch of the tail process uses the configured scrollback (0 when none
  is configured), and every relaunch after an exit of the process uses 0: after any
  events that the handlers survive, the \<open>spawn\<close> calls are the first launch followed
  by one launch with scrollback 0 for each exit.
\<close>

theorem scrollback_first_launch_then_zero:
  assumes "upstreamRequestLog cfg = Some logPath" and "logPath \<noteq> []"
    and "existsSync logPath"
    and "run_events cfg Date_parse logPath (init cfg existsSync) evs = Inr st"
  shows "spawns st =
     ((case upstreamRequestLogScrollback cfg of None \<Rightarrow> 0 | Some k \<Rightarrow> k), logPath)
       # replicate (count_list evs Exit) (0, logPath)"
  using run_spawns [OF assms(4)] assms(1-3)
  by (simp add: init_def tail_def Let_def)

theorem scrollback_first_launch_then_zero_witness:
  "\<exists>st. upstreamRequestLog cfg0 = Some (js ''/var/log/nginx/access.log'') \<and>
     run_events cfg0 date0 (js ''/var/log/nginx/access.log'') (init cfg0 (\<lambda>p. True)) events0 = Inr st \<and>
     spawns st = [(100, js ''/var/log/nginx/access.log''), (0, js ''/var/log/nginx/access.log''),
                  (0, js ''/var/log/nginx/access.log'')]"
proof -
  let ?p = "js ''/var/log/nginx/access.log''"
  have 1: "upstreamRequestLog cfg0 = Some ?p" by (simp add: cfg0_def)
  have 2: "?p \<noteq> []" by (simp add: js_def)
  have "case run_events cfg0 date0 ?p (init cfg0 (\<lambda>p. True)) events0 of Inl e \<Rightarrow> False | Inr st \<Rightarrow> True"
    by code_simp
  then obtain st where 4: "run_events cfg0 date0 ?p (init cfg0 (\<lambda>p. True)) events0 = Inr st"
    by (auto split: sum.splits)
  have "spawns st = [(100, ?p), (0, ?p), (0, ?p)]"
    using scrollback_first_launch_then_zero [where existsSync = "\<lambda>p. True", OF 1 2 _ 4]
    by (simp add: cfg0_def events0_def)
  then show ?thesis using 1 4 by blast
qed

text \<open>
  C1: a request whose referrer is on the mirror domain is meant to be dropped only when
  the referrer is not itself a proxied resource. The parser tests the whole referrer
  URL, scheme and host included, against \<open>REGEX_EXTERNAL\<close>, which is anchored on a
  leading \<open>/\<close>: the test fails for every such referrer. Here a line that passes every
  other rule, with the referrer \<open>https://rawgit.com/user/repo/main/index.html\<close> whose
  path has four segments and the shape of an external resource, is dropped.
\<close>

theorem rawgit_deep_referrer_dropped:
  "field line_rawgit_deep 4 = Some (js ''/user/repo/main/file.js'') \<and>
   field line_rawgit_deep 5 = Some (js ''200'') \<and>
   field line_rawgit_deep 7 = Some (js ''https://rawgit.com/user/repo/main/index.html'') \<and>
   test REGEX_RAWGIT (js ''https://rawgit.com/user/repo/main/index.html'') \<and>
   length (segments (js ''/user/repo/main/index.html'')) = 4 \<and>
   test REGEX_EXTERNAL (js ''/user/repo/main/index.html'') \<and>
   \<not> test REGEX_EXTERNAL (js ''https://rawgit.com/user/repo/main/index.html'') \<and>
   \<not> test REGEX_LOOOPBACK_URL (js ''https://rawgit.com/user/repo/main/index.html'') \<and>
   parseLine cfg0 date0 line_rawgit_deep = Inr None"
proof -
  have 1: "field line_rawgit_deep 4 = Some (js ''/user/repo/main/file.js'')" by code_simp
  have 2: "field line_rawgit_deep 5 = Some (js ''200'')" by code_simp
  have 3: "field line_rawgit_deep 7 = Some (js ''https://rawgit.com/user/repo/main/index.html'')"
    by code_simp
  have 4: "test REGEX_RAWGIT (js ''https://rawgit.com/user/repo/main/index.html'')" by code_simp
  have 5: "length (segments (js ''/user/repo/main/index.html'')) = 4" by code_simp
  have 6: "test REGEX_EXTERNAL (js ''/user/repo/main/index.html'')" by code_simp
  have 7: "\<not> test REGEX_EXTERNAL (js ''https://rawgit.com/user/repo/main/index.html'')"
    by code_simp
  have 8: "\<not> test REGEX_LOOOPBACK_URL (js ''https://rawgit.com/user/repo/main/index.html'')"
    by code_simp
  have 9: "parseLine cfg0 date0 line_rawgit_deep = Inr None" by code_simp
  show ?thesis by (intro conjI 1 2 3 4 5 6 7 8 9)
qed

text \<open>
  C2: a plain CLF line, without the quoted referrer and user agent, matches
  \<open>REGEX_CLF\<close> with captures 7 and 8 undefined; when its path is that of an external
  resource, \<open>matches[7].replace\<close> throws a \<open>TypeError\<close> out of \<open>parseLine\<close>.
\<close>

theorem plain_clf_line_throws:
  "field line_plain 4 = Some (js ''/user/repo/main/file.js'') \<and>
   field line_plain 5 = Some (js ''200'') \<and>
   field line_plain 7 = None \<and>
   parseLine cfg0 date0 line_plain = Inl TypeError"
proof -
  have 1: "field line_plain 4 = Some (js ''/user/repo/main/file.js'')" by code_simp
  have 2: "field line_plain 5 = Some (js ''200'')" by code_simp
  have 3: "field line_plain 7 = None" by code_simp
  have 4: "parseLine cfg0 date0 line_plain = Inl TypeError" by code_simp
  show ?thesis by (intro conjI 1 2 3 4)
qed

text \<open>
  C3: for a parsed request with the query-stripped path \<open>p\<close>, the test of
  \<open>REGEX_EXTERNAL\<close> holds exactly when \<open>p\<close> is \<open>/a/b/c/d\<close> followed by anything, with
  \<open>a\<close>, \<open>b\<close>, \<open>c\<close> and \<open>d\<close> not empty (each may itself hold a \<open>/\<close>). If \<open>p\<close> is in the
  ignore set or fails the test, the request is not forwarded. A path that does not
  begin with \<open>/\<close>, or holds fewer than four \<open>/\<close>, fails the test; a path that begins
  with \<open>/\<close> and has at least four non-empty segments passes it.
\<close>

theorem path_rule:
  assumes "field line 4 = Some url" and "p = strip_query url"
  shows "(test REGEX_EXTERNAL p \<longleftrightarrow>
            (\<exists>a b c d r. p = [0x2F] @ a @ [0x2F] @ b @ [0x2F] @ c @ [0x2F] @ d @ r
               \<and> a \<noteq> [] \<and> b \<noteq> [] \<and> c \<noteq> [] \<and> d \<noteq> [])) \<and>
         (p \<in> statsIgnorePaths cfg \<or> \<not> test REGEX_EXTERNAL p
            \<longrightarrow> parseLine cfg Date_parse line = Inr None) \<and>
         (take 1 p \<noteq> [0x2F] \<or> count_list p 0x2F < 4 \<longrightarrow> \<not> test REGEX_EXTERNAL p) \<and>
         (take 1 p = [0x2F] \<and> 4 \<le> length (segments p) \<longrightarrow> test REGEX_EXTERNAL p)"
proof -
  have nd: "list_all dot url"
    using field_url_nonspace [OF assms(1)] by (simp add: list_all_iff nonspace_dot)
  have "set (takeWhile (\<lambda>c. c \<noteq> 0x3F) url) \<subseteq> set url"
    by (auto dest: set_takeWhileD)
  then have pd: "list_all dot p"
    using nd unfolding assms(2) by (auto simp: strip_query_dot [OF nd] list_all_iff)
  have complete: "test REGEX_EXTERNAL p"
    if "\<exists>a b c d r. p = [0x2F] @ a @ [0x2F] @ b @ [0x2F] @ c @ [0x2F] @ d @ r
           \<and> a \<noteq> [] \<and> b \<noteq> [] \<and> c \<noteq> [] \<and> d \<noteq> []"
  proof -
    from that obtain a b c d r where
      e: "p = [0x2F] @ a @ [0x2F] @ b @ [0x2F] @ c @ [0x2F] @ d @ r"
         "a \<noteq> []" "b \<noteq> []" "c \<noteq> []" "d \<noteq> []"
      by blast
    have "list_all dot ([0x2F] @ a @ [0x2F] @ b @ [0x2F] @ c @ [0x2F] @ d @ r)"
      using pd e(1) by simp
    then have "list_all dot a" "list_all dot b" "list_all dot c" "list_all dot d"
      by simp_all
    with e show ?thesis by (rule external_complete)
  qed
  have 1: "test REGEX_EXTERNAL p \<longleftrightarrow>
            (\<exists>a b c d r. p = [0x2F] @ a @ [0x2F] @ b @ [0x2F] @ c @ [0x2F] @ d @ r
               \<and> a \<noteq> [] \<and> b \<noteq> [] \<and> c \<noteq> [] \<and> d \<noteq> [])"
  proof
    assume "test REGEX_EXTERNAL p"
    then show "\<exists>a b c d r. p = [0x2F] @ a @ [0x2F] @ b @ [0x2F] @ c @ [0x2F] @ d @ r
               \<and> a \<noteq> [] \<and> b \<noteq> [] \<and> c \<noteq> [] \<and> d \<noteq> []"
      by (rule external_sound)
  next
    assume "\<exists>a b c d r. p = [0x2F] @ a @ [0x2F] @ b @ [0x2F] @ c @ [0x2F] @ d @ r
               \<and> a \<noteq> [] \<and> b \<noteq> [] \<and> c \<noteq> [] \<and> d \<noteq> []"
    then show "test REGEX_EXTERNAL p" by (rule complete)
  qed
  have 2: "parseLine cfg Date_parse line = Inr None"
    if "p \<in> statsIgnorePaths cfg \<or> \<not> test REGEX_EXTERNAL p"
    using assms(1) that unfolding assms(2)
    by (auto simp: parseLine_def field_def Let_def split: option.splits)
  have shape: "take 1 p = [0x2F] \<and> 4 \<le> count_list p 0x2F" if "test REGEX_EXTERNAL p"
  proof -
    from external_sound [OF that] obtain a b c d t where
      e: "p = [0x2F] @ a @ [0x2F] @ b @ [0x2F] @ c @ [0x2F] @ d @ t" by blast
    have "take 1 p = [0x2F]" by (subst e) simp
    moreover have "4 \<le> count_list p 0x2F" using e by (rule count_slashes)
    ultimately show ?thesis by simp
  qed
  have 3: "\<not> test REGEX_EXTERNAL p" if h: "take 1 p \<noteq> [0x2F] \<or> count_list p 0x2F < 4"
  proof
    assume "test REGEX_EXTERNAL p"
    then have "take 1 p = [0x2F] \<and> 4 \<le> count_list p 0x2F" by (rule shape)
    then show False using h by auto
  qed
  have 4: "test REGEX_EXTERNAL p" if h: "take 1 p = [0x2F] \<and> 4 \<le> length (segments p)"
  proof -
    have "\<exists>a b c d r. p = [0x2F] @ a @ [0x2F] @ b @ [0x2F] @ c @ [0x2F] @ d @ r
           \<and> a \<noteq> [] \<and> b \<noteq> [] \<and> c \<noteq> [] \<and> d \<noteq> []"
      using h by (intro segments_shape) simp_all
    then show ?thesis by (rule complete)
  qed
  show ?thesis
    apply (intro conjI impI)
       apply (rule 1)
      apply (erule 2)
     apply (erule 3)
    apply (erule 4)
    done
qed

theorem path_rule_witness:
  "field line_favicon 4 = Some (js ''/favicon.ico'') \<and>
   js ''/favicon.ico'' = strip_query (js ''/favicon.ico'') \<and>
   js ''/favicon.ico'' \<in> statsIgnorePaths cfg0 \<and>
   count_list (js ''/favicon.ico'') 0x2F < 4 \<and>
   \<not> test REGEX_EXTERNAL (js ''/favicon.ico'') \<and>
   parseLine cfg0 date0 line_favicon = Inr None \<and>
   field line_trailing_slash 4 = Some (js ''/a/b/c/'') \<and>
   js ''/a/b/c/'' = strip_query (js ''/a/b/c/'') \<and>
   take 1 (js ''/a/b/c/'') = [0x2F] \<and> count_list (js ''/a/b/c/'') 0x2F = 4 \<and>
   \<not> test REGEX_EXTERNAL (js ''/a/b/c/'') \<and>
   parseLine cfg0 date0 line_trailing_slash = Inr None \<and>
   field line_ok 4 = Some (js ''/user/repo/main/file.js?x=1'') \<and>
   js ''/user/repo/main/file.js'' = strip_query (js ''/user/repo/main/file.js?x=1'') \<and>
   take 1 (js ''/user/repo/main/file.js'') = [0x2F] \<and>
   4 \<le> length (segments (js ''/user/repo/main/file.js'')) \<and>
   test REGEX_EXTERNAL (js ''/user/repo/main/file.js'') \<and>
   (\<exists>a b c d r. js ''/user/repo/main/file.js'' =
        [0x2F] @ a @ [0x2F] @ b @ [0x2F] @ c @ [0x2F] @ d @ r
        \<and> a \<noteq> [] \<and> b \<noteq> [] \<and> c \<noteq> [] \<and> d \<noteq> [])"
proof -
  have f1: "field line_favicon 4 = Some (js ''/favicon.ico'')" by code_simp
  have s1: "js ''/favicon.ico'' = strip_query (js ''/favicon.ico'')" by code_simp
  have i1: "js ''/favicon.ico'' \<in> statsIgnorePaths cfg0" by (simp add: cfg0_def)
  have c1: "count_list (js ''/favicon.ico'') 0x2F < 4" by code_simp
  note r1 = path_rule [OF f1 s1, of cfg0 date0]
  have t1: "\<not> test REGEX_EXTERNAL (js ''/favicon.ico'')" using r1 c1 by blast
  have p1: "parseLine cfg0 date0 line_favicon = Inr None" using r1 i1 by blast
  have f2: "field line_trailing_slash 4 = Some (js ''/a/b/c/'')" by code_simp
  have s2: "js ''/a/b/c/'' = strip_query (js ''/a/b/c/'')" by code_simp
  have h2: "take 1 (js ''/a/b/c/'') = [0x2F]" by code_simp
  have c2: "count_list (js ''/a/b/c/'') 0x2F = 4" by code_simp
  have t2: "\<not> test REGEX_EXTERNAL (js ''/a/b/c/'')" by code_simp
  note r2 = path_rule [OF f2 s2, of cfg0 date0]
  have p2: "parseLine cfg0 date0 line_trailing_slash = Inr None" using r2 t2 by blast
  have f3: "field line_ok 4 = Some (js ''/user/repo/main/file.js?x=1'')" by code_simp
  have s3: "js ''/user/repo/main/file.js'' = strip_query (js ''/user/repo/main/file.js?x=1'')"
    by code_simp
  have h3: "take 1 (js ''/user/repo/main/file.js'') = [0x2F]" by code_simp
  have g3: "4 \<le> length (segments (js ''/user/repo/main/file.js''))" by code_simp
  note r3 = path_rule [OF f3 s3, of cfg0 date0]
  have t3: "test REGEX_EXTERNAL (js ''/user/repo/main/file.js'')" using r3 h3 g3 by blast
  have e3: "\<exists>a b c d r. js ''/user/repo/main/file.js'' =
        [0x2F] @ a @ [0x2F] @ b @ [0x2F] @ c @ [0x2F] @ d @ r
        \<and> a \<noteq> [] \<and> b \<noteq> [] \<and> c \<noteq> [] \<and> d \<noteq> []"
    using r3 t3 by blast
  show ?thesis
    using f1 s1 i1 c1 t1 p1 f2 s2 h2 c2 t2 p2 f3 s3 h3 g3 t3 e3 by blast
qed

text \<open>
  The test is not a count of non-empty segments: \<open>/a/////b\<close> has two and its request
  is forwarded; \<open>a/b/c/d\<close> has four and its request is dropped.
\<close>

theorem repeated_slashes_counterexample:
  "field line_slashes 4 = Some (js ''/a/////b'') \<and>
   strip_query (js ''/a/////b'') = js ''/a/////b'' \<and>
   segments (js ''/a/////b'') = [js ''a'', js ''b''] \<and>
   parseLine cfg0 date0 line_slashes =
     Inr (Some \<lparr>path = js ''/a/////b'', referrer = js ''https://example.com/page'',
                 size = Finite 512, time = 1602363336000\<rparr>) \<and>
   field line_no_leading_slash 4 = Some (js ''a/b/c/d'') \<and>
   strip_query (js ''a/b/c/d'') = js ''a/b/c/d'' \<and>
   segments (js ''a/b/c/d'') = [js ''a'', js ''b'', js ''c'', js ''d''] \<and>
   js ''a/b/c/d'' \<notin> statsIgnorePaths cfg0 \<and>
   \<not> test REGEX_EXTERNAL (js ''a/b/c/d'') \<and>
   parseLine cfg0 date0 line_no_leading_slash = Inr None"
proof -
  have 1: "field line_slashes 4 = Some (js ''/a/////b'')" by code_simp
  have 2: "strip_query (js ''/a/////b'') = js ''/a/////b''" by code_simp
  have 3: "segments (js ''/a/////b'') = [js ''a'', js ''b'']" by code_simp
  have 4: "parseLine cfg0 date0 line_slashes =
     Inr (Some \<lparr>path = js ''/a/////b'', referrer = js ''https://example.com/page'',
                 size = Finite 512, time = 1602363336000\<rparr>)"
    by code_simp
  have 5: "field line_no_leading_slash 4 = Some (js ''a/b/c/d'')" by code_simp
  have 6: "strip_query (js ''a/b/c/d'') = js ''a/b/c/d''" by code_simp
  have 7: "segments (js ''a/b/c/d'') = [js ''a'', js ''b'', js ''c'', js ''d'']" by code_simp
  have 8: "js ''a/b/c/d'' \<notin> statsIgnorePaths cfg0" by (simp add: cfg0_def js_def)
  have 9: "\<not> test REGEX_EXTERNAL (js ''a/b/c/d'')" by code_simp
  have 10: "parseLine cfg0 date0 line_no_leading_slash = Inr None" by code_simp
  show ?thesis using 1 2 3 4 5 6 7 8 9 10 by blast
qed

text \<open>
  C4: a parsed request is never forwarded when its query-stripped referrer is
  \<open>http://\<close> or \<open>https://\<close> in any case of letters, then a loopback host of
  \<open>loopback_hosts\<close> (\<open>localhost\<close> in any case of letters, \<open>127.0.0.1\<close>, or in brackets
  \<open>::\<close> or seven groups of zeros, zeros and \<open>1\<close>, with or without \<open>/128\<close>), then
  nothing or a colon and decimal digits, then a \<open>/\<close>.
\<close>

theorem loopback_referrer_never_forwarded:
  assumes "field line 7 = Some ref"
    and "strip_query ref = scheme @ host @ port @ [0x2F] @ t"
    and "same_letters scheme (js ''http://'') \<or> same_letters scheme (js ''https://'')"
    and "host \<in> loopback_hosts" and "port \<in> ports"
  shows "\<not> forwarded (parseLine cfg Date_parse line)"
proof
  assume "forwarded (parseLine cfg Date_parse line)"
  then obtain r where "parseLine cfg Date_parse line = Inr (Some r)"
    unfolding forwarded_iff by blast
  from parseLine_Some_D [OF this] obtain ref' where
    "field line 7 = Some ref'" "referrer r = strip_query ref'"
    "\<not> test REGEX_LOOOPBACK_URL (referrer r)"
    by blast
  then have "\<not> test REGEX_LOOOPBACK_URL (scheme @ host @ port @ [0x2F] @ t)"
    using assms(1,2) by simp
  then show False using loopback_test [OF assms(3,4,5)] by simp
qed

theorem loopback_referrer_never_forwarded_witness:
  "field line_localhost 7 = Some (js ''http://localhost:8080/x'') \<and>
   strip_query (js ''http://localhost:8080/x'') =
     js ''http://'' @ js ''localhost'' @ js '':8080'' @ [0x2F] @ js ''x'' \<and>
   js ''localhost'' \<in> loopback_hosts \<and> js '':8080'' \<in> ports \<and>
   \<not> forwarded (parseLine cfg0 date0 line_localhost)"
proof -
  have 1: "field line_localhost 7 = Some (js ''http://localhost:8080/x'')" by code_simp
  have 2: "strip_query (js ''http://localhost:8080/x'') =
     js ''http://'' @ js ''localhost'' @ js '':8080'' @ [0x2F] @ js ''x''"
    by code_simp
  have 3: "same_letters (js ''http://'') (js ''http://'') \<or>
           same_letters (js ''http://'') (js ''https://'')"
    by (simp add: same_letters_def)
  have 4: "js ''localhost'' \<in> loopback_hosts"
    by (simp add: loopback_hosts_def same_letters_def)
  have "js '':8080'' = js '':'' @ js ''8080''" by (simp add: js_def)
  moreover have "js ''8080'' \<noteq> []" by (simp add: js_def)
  moreover have "list_all digit (js ''8080'')" by code_simp
  ultimately have 5: "js '':8080'' \<in> ports" unfolding ports_def by blast
  show ?thesis
    using 1 2 4 5 loopback_referrer_never_forwarded [OF 1 2 3 4 5, of cfg0 date0]
    by blast
qed

text \<open>
  Other loopback referrers are forwarded: the IPv6 form \<open>[0::1]\<close>, and \<open>localhost\<close>
  with a port and no \<open>/\<close> after it.
\<close>

theorem loopback_variants_counterexample:
  "field line_ipv6_short 7 = Some (js ''http://[0::1]:8080/x'') \<and>
   parseLine cfg0 date0 line_ipv6_short =
     Inr (Some \<lparr>path = js ''/user/repo/main/file.js'', referrer = js ''http://[0::1]:8080/x'',
                 size = Finite 512, time = 1602363336000\<rparr>) \<and>
   field line_localhost_bare 7 = Some (js ''http://localhost:8080'') \<and>
   parseLine cfg0 date0 line_localhost_bare =
     Inr (Some \<lparr>path = js ''/user/repo/main/file.js'', referrer = js ''http://localhost:8080'',
                 size = Finite 512, time = 1602363336000\<rparr>)"
proof -
  have 1: "field line_ipv6_short 7 = Some (js ''http://[0::1]:8080/x'')" by code_simp
  have 2: "parseLine cfg0 date0 line_ipv6_short =
     Inr (Some \<lparr>path = js ''/user/repo/main/file.js'', referrer = js ''http://[0::1]:8080/x'',
                 size = Finite 512, time = 1602363336000\<rparr>)"
    by code_simp
  have 3: "field line_localhost_bare 7 = Some (js ''http://localhost:8080'')" by code_simp
  have 4: "parseLine cfg0 date0 line_localhost_bare =
     Inr (Some \<lparr>path = js ''/user/repo/main/file.js'', referrer = js ''http://localhost:8080'',
                 size = Finite 512, time = 1602363336000\<rparr>)"
    by code_simp
  show ?thesis by (intro conjI 1 2 3 4)
qed

text \<open>
  C7: \<open>REGEX_QUERY\<close> is meant to match from the query string to the end of the string,
  but its \<open>.\<close> does not match a line terminator. The referrer, unlike the path, may
  hold a carriage return; one after the \<open>?\<close> keeps the query string in the referrer
  that the collector receives.
\<close>

theorem query_kept_before_carriage_return:
  "field line_query_cr 7 = Some (js ''https://example.com/page?y=2'' @ [0x0D] @ js ''z'') \<and>
   parseLine cfg0 date0 line_query_cr =
     Inr (Some \<lparr>path = js ''/user/repo/main/file.js'',
                 referrer = js ''https://example.com/page?y=2'' @ [0x0D] @ js ''z'',
                 size = Finite 512, time = 1602363336000\<rparr>) \<and>
   takeWhile (\<lambda>c. c \<noteq> 0x3F) (js ''https://example.com/page?y=2'' @ [0x0D] @ js ''z'')
     = js ''https://example.com/page''"
proof -
  have 1: "field line_query_cr 7 = Some (js ''https://example.com/page?y=2'' @ [0x0D] @ js ''z'')"
    by code_simp
  have 2: "parseLine cfg0 date0 line_query_cr =
     Inr (Some \<lparr>path = js ''/user/repo/main/file.js'',
                 referrer = js ''https://example.com/page?y=2'' @ [0x0D] @ js ''z'',
                 size = Finite 512, time = 1602363336000\<rparr>)"
    by code_simp
  have 3: "takeWhile (\<lambda>c. c \<noteq> 0x3F) (js ''https://example.com/page?y=2'' @ [0x0D] @ js ''z'')
     = js ''https://example.com/page''"
    by code_simp
  show ?thesis by (intro conjI 1 2 3)
qed

text \<open>
  C8: the size handed to the collector is \<open>parseInt\<close> of the bytes field in base 10, or
  0 when that is \<open>NaN\<close>. It is 0 when no digit follows the optional sign; otherwise it is
  the Number for the signed integer that the leading digits write, which is that
  integer itself below \<open>2 ^ 53\<close>. It is not negative unless the field begins with \<open>-\<close>.
\<close>

theorem size_from_bytes_field:
  assumes "parseLine cfg Date_parse line = Inr (Some r)" and "field line 6 = Some b"
  shows "size r = number_or_zero (parseInt10 b) \<and>
    (digits_of b = [] \<longrightarrow> size r = Finite 0) \<and>
    (digits_of b \<noteq> [] \<longrightarrow> size r = round_double (sign_of b * digits_value 0 (digits_of b))) \<and>
    (digits_value 0 (digits_of b) < 2 ^ 53
       \<longrightarrow> size r = Finite (sign_of b * digits_value 0 (digits_of b))) \<and>
    (take 1 b \<noteq> [0x2D] \<longrightarrow> \<not> negative (size r))"
proof -
  define n where "n = digits_value 0 (digits_of b)"
  have s: "size r = number_or_zero (parseInt10 b)"
    using parseLine_Some_D [OF assms(1)] assms(2) by (auto simp: ToString_def)
  have ns: "list_all nonspace b" "b \<noteq> []"
    using field_bytes_nonspace [OF assms(2)] by simp_all
  have p: "parseInt10 b = (if digits_of b = [] then None else Some (round_double (sign_of b * n)))"
    unfolding n_def using ns by (rule parseInt10_nonspace)
  have "list_all digit (digits_of b)" unfolding digits_of_def by (rule list_all_takeWhile)
  then have nn: "0 \<le> n"
    unfolding n_def by (intro digits_value_nonneg) simp_all
  have 1: "digits_of b = [] \<longrightarrow> size r = Finite 0"
    unfolding s p by (simp add: number_or_zero_def)
  have 2: "digits_of b \<noteq> [] \<longrightarrow> size r = round_double (sign_of b * n)"
    unfolding s p by (simp add: number_or_zero_def)
  have e: "size r = Finite (sign_of b * n)" if "n < 2 ^ 53"
  proof (cases "digits_of b = []")
    case True
    then have "n = 0" unfolding n_def by simp
    then show ?thesis using 1 True by simp
  next
    case False
    have "\<bar>sign_of b * n\<bar> = n" using nn by (simp add: sign_of_def abs_mult)
    then have "round_double (sign_of b * n) = Finite (sign_of b * n)"
      using that by (intro round_double_exact) simp
    then show ?thesis using 2 False by simp
  qed
  have 4: "\<not> negative (size r)" if "take 1 b \<noteq> [0x2D]"
  proof (cases "digits_of b = []")
    case True
    then show ?thesis using 1 by (simp add: negative_def)
  next
    case False
    have "sign_of b = 1" using that by (simp add: sign_of_def)
    then have "0 \<le> sign_of b * n" using nn by simp
    then have "\<not> negative (round_double (sign_of b * n))"
      by (rule round_double_not_negative)
    then show ?thesis using 2 False by simp
  qed
  show ?thesis using s 1 2 e 4 unfolding n_def by blast
qed

theorem size_from_bytes_field_witness:
  "parseLine cfg0 date0 line_ok =
     Inr (Some \<lparr>path = js ''/user/repo/main/file.js'', referrer = js ''https://example.com/page'',
                 size = Finite 512, time = 1602363336000\<rparr>) \<and>
   field line_ok 6 = Some (js ''512'') \<and> digits_of (js ''512'') = js ''512'' \<and>
   sign_of (js ''512'') = 1 \<and> digits_value 0 (js ''512'') = 512 \<and>
   take 1 (js ''512'') \<noteq> [0x2D] \<and> \<not> negative (Finite 512) \<and>
   parseLine cfg0 date0 line_no_bytes =
     Inr (Some \<lparr>path = js ''/user/repo/main/file.js'', referrer = js ''https://example.com/page'',
                 size = Finite 0, time = 1602363336000\<rparr>) \<and>
   field line_no_bytes 6 = Some (js ''-'') \<and> digits_of (js ''-'') = []"
proof -
  have h: "parseLine cfg0 date0 line_ok =
     Inr (Some \<lparr>path = js ''/user/repo/main/file.js'', referrer = js ''https://example.com/page'',
                 size = Finite 512, time = 1602363336000\<rparr>)"
    by code_simp
  have f: "field line_ok 6 = Some (js ''512'')"
    by code_simp
  have d: "digits_of (js ''512'') = js ''512''" by code_simp
  have g: "sign_of (js ''512'') = 1" by code_simp
  have v: "digits_value 0 (js ''512'') = 512" by code_simp
  have t: "take 1 (js ''512'') \<noteq> [0x2D]"
    by code_simp
  have h': "parseLine cfg0 date0 line_no_bytes =
     Inr (Some \<lparr>path = js ''/user/repo/main/file.js'', referrer = js ''https://example.com/page'',
                 size = Finite 0, time = 1602363336000\<rparr>)"
    by code_simp
  have f': "field line_no_bytes 6 = Some (js ''-'')"
    by code_simp
  have d': "digits_of (js ''-'') = []" by code_simp
  let ?r = "\<lparr>path = js ''/user/repo/main/file.js'', referrer = js ''https://example.com/page'',
                 size = Finite 512, time = 1602363336000\<rparr>"
  from size_from_bytes_field [OF h f] t have "\<not> negative (size ?r)" by blast
  then have n: "\<not> negative (Finite 512)" by simp
  show ?thesis
    using h f d g v t n h' f' d' by blast
qed

text \<open>
  The bytes field is read with its sign: for \<open>-5\<close> the collector receives the size
  \<open>-5\<close>.
\<close>

theorem negative_bytes_counterexample:
  "field line_negative 6 = Some (js ''-5'') \<and>
   parseLine cfg0 date0 line_negative =
     Inr (Some \<lparr>path = js ''/user/repo/main/file.js'', referrer = js ''https://example.com/page'',
                 size = Finite (- 5), time = 1602363336000\<rparr>)"
proof -
  have f: "field line_negative 6 = Some (js ''-5'')"
    by code_simp
  have h: "parseLine cfg0 date0 line_negative =
     Inr (Some \<lparr>path = js ''/user/repo/main/file.js'', referrer = js ''https://example.com/page'',
                 size = Finite (- 5), time = 1602363336000\<rparr>)"
    by code_simp
  show ?thesis using f h by simp
qed

text \<open>
  C10: every path handed to the collector begins with \<open>/\<close>, holds at least four
  \<open>/\<close>, holds no \<open>?\<close> and is not in the ignore set.
\<close>

theorem collector_path_invariant:
  assumes "parseLine cfg Date_parse line = Inr (Some r)"
  shows "take 1 (path r) = [0x2F] \<and> 4 \<le> count_list (path r) 0x2F \<and>
         0x3F \<notin> set (path r) \<and> path r \<notin> statsIgnorePaths cfg"
proof -
  from parseLine_Some_D [OF assms] obtain url where
    u: "field line 4 = Some url" "path r = strip_query url"
       "path r \<notin> statsIgnorePaths cfg" "test REGEX_EXTERNAL (path r)"
    by blast
  have "list_all nonspace url" using field_url_nonspace [OF u(1)] by simp
  then have "list_all dot url" by (simp add: list_all_iff nonspace_dot)
  then have q: "0x3F \<notin> set (path r)" unfolding u(2) by (rule strip_query_no_query)
  from external_sound [OF u(4)] obtain a b c d t where
    p: "path r = [0x2F] @ a @ [0x2F] @ b @ [0x2F] @ c @ [0x2F] @ d @ t" by blast
  have "take 1 (path r) = [0x2F]" by (subst p) simp
  moreover have "4 \<le> count_list (path r) 0x2F" using p by (rule count_slashes)
  ultimately show ?thesis using q u(3) by simp
qed

theorem collector_path_invariant_witness:
  "parseLine cfg0 date0 line_ok =
     Inr (Some \<lparr>path = js ''/user/repo/main/file.js'', referrer = js ''https://example.com/page'',
                 size = Finite 512, time = 1602363336000\<rparr>) \<and>
   take 1 (js ''/user/repo/main/file.js'') = [0x2F] \<and>
   4 \<le> count_list (js ''/user/repo/main/file.js'') 0x2F \<and>
   0x3F \<notin> set (js ''/user/repo/main/file.js'') \<and>
   js ''/user/repo/main/file.js'' \<notin> statsIgnorePaths cfg0"
proof -
  have h: "parseLine cfg0 date0 line_ok =
     Inr (Some \<lparr>path = js ''/user/repo/main/file.js'', referrer = js ''https://example.com/page'',
                 size = Finite 512, time = 1602363336000\<rparr>)"
    by code_simp
  show ?thesis
    using h collector_path_invariant [OF h] by simp
qed

end
